theory Spec2Isabelle
  imports Main "HOL-Library.Char_ord" "HOL-Library.List_Lexorder"
    "HOL-Library.Option_ord" "HOL-Library.Product_Lexorder" "HOL-Library.Multiset"
begin

section \<open>Labels (muddled/depend.py, class Label)\<close>

text \<open>
  A label carries the five identifying parts and the two flags.  The parts \<open>domain\<close>
  and \<open>role\<close> may be Python's \<open>None\<close>; so may the two flags, because \<open>re_tag\<close>
  stores its keyword arguments (default \<open>None\<close>) into them.  A flag is read by its
  truth value only (\<open>truthy\<close>).
\<close>

record label =
  type :: string
  domain :: "string option"
  name :: string
  role :: "string option"
  tag :: string
  transient :: "bool option"
  system :: "bool option"

definition truthy :: "bool option \<Rightarrow> bool" where
  "truthy f = (f = Some True)"

text \<open>Truth value of an optional string: \<open>None\<close> and the empty string are false.\<close>

definition str_truthy :: "string option \<Rightarrow> bool" where
  "str_truthy s = (case s of None \<Rightarrow> False | Some v \<Rightarrow> v \<noteq> [])"

text \<open>\<open>Label.copy\<close>: a shallow copy of an object whose fields are all immutable values.\<close>

definition copy :: "label \<Rightarrow> label" where
  "copy l = l"

text \<open>\<open>Label.re_tag(new_tag, system = None, transient = None)\<close>.\<close>

definition re_tag :: "label \<Rightarrow> string \<Rightarrow> bool option \<Rightarrow> bool option \<Rightarrow> label" where
  "re_tag self new_tag new_system new_transient =
     (copy self)\<lparr> tag := new_tag, system := new_system, transient := new_transient \<rparr>"

text \<open>
  \<open>Label.match\<close>: one comparison per part, in the order type, domain, name, role, tag.
  \<open>part_step\<close> is one of the five \<open>if\<close> blocks: it leaves the counter alone when the
  parts are equal, counts a wildcard when they differ and one of them is \<open>*\<close>, and
  returns \<open>None\<close> otherwise.
\<close>

definition part_step :: "'a \<Rightarrow> 'a \<Rightarrow> 'a \<Rightarrow> nat option \<Rightarrow> nat option" where
  "part_step star a b acc =
     (case acc of
        None \<Rightarrow> None
      | Some n \<Rightarrow>
          if a \<noteq> b then (if a = star \<or> b = star then Some (n + 1) else None)
          else Some n)"

definition match :: "label \<Rightarrow> label \<Rightarrow> int option" where
  "match self other =
     map_option (\<lambda>nr_wildcards. - int nr_wildcards)
       (part_step ''*'' (tag self) (tag other)
         (part_step (Some ''*'') (role self) (role other)
           (part_step ''*'' (name self) (name other)
             (part_step (Some ''*'') (domain self) (domain other)
               (part_step ''*'' (type self) (type other) (Some 0))))))"

definition match_without_tag :: "label \<Rightarrow> label \<Rightarrow> bool" where
  "match_without_tag self other =
     (type self = type other \<and> domain self = domain other \<and>
      name self = name other \<and> role self = role other)"

text \<open>
  \<open>Label.as_tuple\<close>, \<open>__cmp__\<close> and \<open>__hash__\<close>.  Python 2 compares tuples
  lexicographically, strings by their bytes, and \<open>None\<close> below every string; these are
  the orders of the class instances imported above.  The hash of a tuple is a function of
  the tuple, taken as a parameter.
\<close>

type_synonym label_tuple = "string \<times> string option \<times> string \<times> string option \<times> string"

definition as_tuple :: "label \<Rightarrow> label_tuple" where
  "as_tuple self = (type self, domain self, name self, role self, tag self)"

definition label_cmp :: "label \<Rightarrow> label \<Rightarrow> int" where
  "label_cmp self other =
     (let this_as_tuple = as_tuple self; that_as_tuple = as_tuple other in
      if this_as_tuple < that_as_tuple then - 1
      else if this_as_tuple > that_as_tuple then 1
      else 0)"

definition label_eq :: "label \<Rightarrow> label \<Rightarrow> bool" where
  "label_eq a b = (label_cmp a b = 0)"

definition label_hash :: "(label_tuple \<Rightarrow> int) \<Rightarrow> label \<Rightarrow> int" where
  "label_hash h self = h (as_tuple self)"

text \<open>
  The two ways in which a part of one label can differ from the same part of another:
  with the wildcard \<open>*\<close> on one side, or with no wildcard.
  \<open>wildcard_differences\<close> is the number of parts that differ in the first way,
  \<open>differ_without_wildcard\<close> says that some part differs in the second way.
\<close>

definition wildcard_difference :: "'a \<Rightarrow> 'a \<Rightarrow> 'a \<Rightarrow> bool" where
  "wildcard_difference star x y = (x \<noteq> y \<and> (x = star \<or> y = star))"

definition plain_difference :: "'a \<Rightarrow> 'a \<Rightarrow> 'a \<Rightarrow> bool" where
  "plain_difference star x y = (x \<noteq> y \<and> x \<noteq> star \<and> y \<noteq> star)"

definition wildcard_differences :: "label \<Rightarrow> label \<Rightarrow> nat" where
  "wildcard_differences a b =
     (if wildcard_difference ''*'' (type a) (type b) then 1 else 0) +
     (if wildcard_difference (Some ''*'') (domain a) (domain b) then 1 else 0) +
     (if wildcard_difference ''*'' (name a) (name b) then 1 else 0) +
     (if wildcard_difference (Some ''*'') (role a) (role b) then 1 else 0) +
     (if wildcard_difference ''*'' (tag a) (tag b) then 1 else 0)"

definition differ_without_wildcard :: "label \<Rightarrow> label \<Rightarrow> bool" where
  "differ_without_wildcard a b =
     (plain_difference ''*'' (type a) (type b) \<or>
      plain_difference (Some ''*'') (domain a) (domain b) \<or>
      plain_difference ''*'' (name a) (name b) \<or>
      plain_difference (Some ''*'') (role a) (role b) \<or>
      plain_difference ''*'' (tag a) (tag b))"

text \<open>
  \<open>Label.__str__\<close>.  The role and the domain are printed when they are true values
  (neither \<open>None\<close> nor empty), the flags when one of them is true.
\<close>

definition label_str :: "label \<Rightarrow> string" where
  "label_str self =
     (let basename = (case role self of
                        None \<Rightarrow> name self
                      | Some r \<Rightarrow> if r \<noteq> [] then name self @ ''{'' @ r @ ''}'' else name self);
          dom = (case domain self of
                   None \<Rightarrow> []
                 | Some d \<Rightarrow> if d \<noteq> [] then ''('' @ d @ '')'' else []);
          rv = type self @ '':'' @ dom @ basename @ ''/'' @ tag self
      in if truthy (transient self) \<or> truthy (system self)
         then rv @ ''['' @ (if truthy (transient self) then ''T'' else [])
                       @ (if truthy (system self) then ''S'' else []) @ '']''
         else rv)"

subsection \<open>The label grammar\<close>

text \<open>
  The character class \<open>[A-Za-z0-9._+-]\<close> of \<open>label_part\<close> and the class
  \<open>[A-Za-z0-9]\<close> of the flags.
\<close>

definition is_alnum :: "char \<Rightarrow> bool" where
  "is_alnum c = ((CHR ''A'' \<le> c \<and> c \<le> CHR ''Z'') \<or> (CHR ''a'' \<le> c \<and> c \<le> CHR ''z'') \<or>
                 (CHR ''0'' \<le> c \<and> c \<le> CHR ''9''))"

definition is_label_char :: "char \<Rightarrow> bool" where
  "is_label_char c = (is_alnum c \<or> c = CHR ''.'' \<or> c = CHR ''_'' \<or> c = CHR ''+'' \<or> c = CHR ''-'')"

text \<open>
  The regular expressions are matched the way Python's backtracking matcher does it, at
  the start of the string, each function returning what it captured and the rest of the
  input.  \<open>label_part\<close> is \<open>[A-Za-z0-9._+-]+|\*\<close>: the longest run of label
  characters when there is one, else a single \<open>*\<close>.  Taking the longest run loses no
  match: in \<open>label_string_re\<close> every part is followed by a literal character outside
  the class (or by the end of the expression), so a shorter run is followed by a label
  character and cannot continue; and the second alternative needs a \<open>*\<close> where the
  first found a label character.
\<close>

definition label_part :: "string \<Rightarrow> (string \<times> string) option" where
  "label_part s =
     (if takeWhile is_label_char s \<noteq> []
      then Some (takeWhile is_label_char s, dropWhile is_label_char s)
      else (case s of
              [] \<Rightarrow> None
            | c # rest \<Rightarrow> if c = CHR ''*'' then Some (''*'', rest) else None))"

text \<open>A literal character of the expression.\<close>

definition lit :: "char \<Rightarrow> string \<Rightarrow> string option" where
  "lit c s = (case s of [] \<Rightarrow> None | x # rest \<Rightarrow> if x = c then Some rest else None)"

text \<open>
  The three optional groups.  A group that does not match is skipped: it captures
  \<open>None\<close> and consumes nothing.  Inside the braces the role is itself optional.
\<close>

definition domain_group :: "string \<Rightarrow> string option \<times> string" where
  "domain_group s =
     (case lit CHR ''('' s of
        None \<Rightarrow> (None, s)
      | Some s1 \<Rightarrow>
          (case label_part s1 of
             None \<Rightarrow> (None, s)
           | Some (d, s2) \<Rightarrow>
               (case lit CHR '')'' s2 of
                  None \<Rightarrow> (None, s)
                | Some s3 \<Rightarrow> (Some d, s3))))"

definition role_group :: "string \<Rightarrow> string option \<times> string" where
  "role_group s =
     (case lit CHR ''{'' s of
        None \<Rightarrow> (None, s)
      | Some s1 \<Rightarrow>
          (case label_part s1 of
             None \<Rightarrow>
               (case lit CHR ''}'' s1 of
                  None \<Rightarrow> (None, s)
                | Some s3 \<Rightarrow> (None, s3))
           | Some (r, s2) \<Rightarrow>
               (case lit CHR ''}'' s2 of
                  None \<Rightarrow>
                    (case lit CHR ''}'' s1 of
                       None \<Rightarrow> (None, s)
                     | Some s3 \<Rightarrow> (None, s3))
                | Some s3 \<Rightarrow> (Some r, s3))))"

definition flags_group :: "string \<Rightarrow> string option \<times> string" where
  "flags_group s =
     (case lit CHR ''['' s of
        None \<Rightarrow> (None, s)
      | Some s1 \<Rightarrow>
          if takeWhile is_alnum s1 = [] then (None, s)
          else (case lit CHR '']'' (dropWhile is_alnum s1) of
                  None \<Rightarrow> (None, s)
                | Some s3 \<Rightarrow> (Some (takeWhile is_alnum s1), s3)))"

text \<open>
  The match object of \<open>label_string_re.match\<close>: the six named groups and the input left
  after the match (\<open>m.end() != len(label_string)\<close> says that it is not empty).
\<close>

record label_match =
  m_type :: string
  m_domain :: "string option"
  m_name :: string
  m_role :: "string option"
  m_tag :: string
  m_flags :: "string option"
  m_rest :: string

definition label_string_re :: "string \<Rightarrow> label_match option" where
  "label_string_re s =
     (case label_part s of
        None \<Rightarrow> None
      | Some (ty, s1) \<Rightarrow>
     (case lit CHR '':'' s1 of
        None \<Rightarrow> None
      | Some s2 \<Rightarrow>
     (case domain_group s2 of (dm, s3) \<Rightarrow>
     (case label_part s3 of
        None \<Rightarrow> None
      | Some (nm, s4) \<Rightarrow>
     (case role_group s4 of (rl, s5) \<Rightarrow>
     (case lit CHR ''/'' s5 of
        None \<Rightarrow> None
      | Some s6 \<Rightarrow>
     (case label_part s6 of
        None \<Rightarrow> None
      | Some (tg, s7) \<Rightarrow>
     (case flags_group s7 of (fl, s8) \<Rightarrow>
        Some \<lparr>m_type = ty, m_domain = dm, m_name = nm, m_role = rl, m_tag = tg,
              m_flags = fl, m_rest = s8\<rparr>))))))))"

text \<open>
  \<open>utils.Failure\<close>, \<open>Label._check_value\<close> (the whole value must be one label part)
  and the constructor \<open>Label(type, name, role, tag, transient, system, domain)\<close>.
\<close>

datatype failure = Failure

definition check_value :: "string \<Rightarrow> bool" where
  "check_value v = (case label_part v of None \<Rightarrow> False | Some (w, rest) \<Rightarrow> rest = [])"

definition Label :: "string \<Rightarrow> string \<Rightarrow> string option \<Rightarrow> string \<Rightarrow> bool \<Rightarrow> bool \<Rightarrow>
    string option \<Rightarrow> failure + label" where
  "Label ty nm rl tg is_transient is_system dm =
     (if \<not> check_value ty then Inl Failure
      else if \<not> check_value nm then Inl Failure
      else if (case rl of None \<Rightarrow> False | Some r \<Rightarrow> \<not> check_value r) then Inl Failure
      else if \<not> check_value tg then Inl Failure
      else if (case dm of None \<Rightarrow> False | Some d \<Rightarrow> \<not> check_value d) then Inl Failure
      else Inr \<lparr>type = ty, domain = dm, name = nm, role = rl, tag = tg,
                transient = Some is_transient, system = Some is_system\<rparr>)"

text \<open>\<open>Label.from_string\<close>: \<open>if flags:\<close> is true for a captured, non-empty group.\<close>

definition from_string :: "string \<Rightarrow> failure + label" where
  "from_string label_string =
     (case label_string_re label_string of
        None \<Rightarrow> Inl Failure
      | Some m \<Rightarrow>
          if m_rest m \<noteq> [] then Inl Failure
          else
            (let flags = m_flags m;
                 is_transient = (case flags of None \<Rightarrow> False
                          | Some f \<Rightarrow> f \<noteq> [] \<and> CHR ''T'' \<in> set f);
                 is_system = (case flags of None \<Rightarrow> False
                        | Some f \<Rightarrow> f \<noteq> [] \<and> CHR ''S'' \<in> set f)
             in Label (m_type m) (m_name m) (m_role m) (m_tag m) is_transient is_system (m_domain m)))"

text \<open>
  What the round-trip property asks of the string: no empty pair of braces or
  parentheses, and a flags group that is absent or one of \<open>T\<close>, \<open>S\<close>, \<open>TS\<close>.
\<close>

fun has_empty_group :: "string \<Rightarrow> bool" where
  "has_empty_group (a # b # cs) =
     ((a = CHR ''{'' \<and> b = CHR ''}'') \<or> (a = CHR ''('' \<and> b = CHR '')'') \<or>
      has_empty_group (b # cs))"
| "has_empty_group _ = False"

definition normalized_flags :: "string option \<Rightarrow> bool" where
  "normalized_flags f = (f = None \<or> f = Some ''T'' \<or> f = Some ''S'' \<or> f = Some ''TS'')"

section \<open>Rules and rule sets (muddled/depend.py, classes Rule and RuleSet)\<close>

text \<open>
  A Python set of labels is a list without two equal labels, where equality is the
  labels' own (\<open>__cmp__\<close>, through \<open>label_eq\<close>).  \<open>label_in\<close> is \<open>x in s\<close>,
  \<open>set_add\<close> is \<open>s.add(x)\<close> (an element already there stays as it is),
  \<open>set_minus\<close> is \<open>s - t\<close>.
\<close>

definition label_in :: "label \<Rightarrow> label list \<Rightarrow> bool" where
  "label_in x s = (\<exists>y\<in>set s. label_eq x y)"

definition set_add :: "label \<Rightarrow> label list \<Rightarrow> label list" where
  "set_add x s = (if label_in x s then s else s @ [x])"

definition set_minus :: "label list \<Rightarrow> label list \<Rightarrow> label list" where
  "set_minus s t = filter (\<lambda>x. \<not> label_in x t) s"

text \<open>
  A rule: its target, the object that makes the target (\<open>None\<close> or a Dependable, which
  is left abstract) and the set of labels it depends on.
\<close>

record 'a rule =
  target :: label
  obj :: "'a option"
  deps :: "label list"

text \<open>
  \<open>Rule.__cmp__\<close> returns 0 when the targets are equal, neither set of dependencies
  properly contains the other, and the objects compare equal; two Dependables compare by
  Python's default order, in which only an object and itself are equal.
\<close>

definition label_keys :: "label list \<Rightarrow> label_tuple set" where
  "label_keys s = set (map as_tuple s)"

definition rule_eq :: "'a rule \<Rightarrow> 'a rule \<Rightarrow> bool" where
  "rule_eq r1 r2 =
     (label_cmp (target r1) (target r2) = 0 \<and>
      \<not> label_keys (deps r2) \<subset> label_keys (deps r1) \<and>
      \<not> label_keys (deps r1) \<subset> label_keys (deps r2) \<and>
      obj r1 = obj r2)"

definition rule_set_add :: "'a rule \<Rightarrow> 'a rule list \<Rightarrow> 'a rule list" where
  "rule_set_add r s = (if \<exists>y\<in>set s. rule_eq r y then s else s @ [r])"

text \<open>\<open>Rule.add\<close> and \<open>Rule.merge\<close>.\<close>

definition rule_add :: "label \<Rightarrow> 'a rule \<Rightarrow> 'a rule" where
  "rule_add l self = self\<lparr>deps := set_add l (deps self)\<rparr>"

definition rule_merge :: "'a rule \<Rightarrow> 'a rule \<Rightarrow> 'a rule" where
  "rule_merge self other =
     (let merged = fold rule_add (deps other) self
      in if obj other \<noteq> None then merged\<lparr>obj := obj other\<rparr> else merged)"

text \<open>
  The dictionary \<open>RuleSet.map\<close> is the list of its items, in the order in which the
  dictionary yields them.  \<open>map_get\<close> is \<open>self.map.get(label, None)\<close>,
  \<open>ruleset_add\<close> is \<open>RuleSet.add\<close>.
\<close>

type_synonym 'a ruleset = "(label \<times> 'a rule) list"

fun map_get :: "'a ruleset \<Rightarrow> label \<Rightarrow> 'a rule option" where
  "map_get [] l = None"
| "map_get ((k, v) # rest) l = (if label_eq l k then Some v else map_get rest l)"

fun map_merge_into :: "'a ruleset \<Rightarrow> 'a rule \<Rightarrow> 'a ruleset" where
  "map_merge_into [] r = []"
| "map_merge_into ((k, v) # rest) r =
     (if label_eq (target r) k then (k, rule_merge v r) # rest
      else (k, v) # map_merge_into rest r)"

definition ruleset_add :: "'a rule \<Rightarrow> 'a ruleset \<Rightarrow> 'a ruleset" where
  "ruleset_add r self =
     (case map_get self (target r) of
        None \<Rightarrow> self @ [(target r, r)]
      | Some inst \<Rightarrow> map_merge_into self r)"

text \<open>\<open>RuleSet.rules_for_target\<close> and \<open>RuleSet.targets_match\<close>.\<close>

definition rules_for_target :: "'a ruleset \<Rightarrow> label \<Rightarrow> bool \<Rightarrow> bool \<Rightarrow> 'a rule list" where
  "rules_for_target self l useTags useMatch =
     (if useMatch then
        fold (\<lambda>(k, v) rules. if match l k \<noteq> None then rule_set_add v rules else rules)
          self []
      else if useTags then
        (case map_get self l of None \<Rightarrow> [] | Some r \<Rightarrow> [r])
      else
        fold (\<lambda>(k, v) rules. if match_without_tag k l then rule_set_add v rules else rules)
          self [])"

definition targets_match :: "'a ruleset \<Rightarrow> label \<Rightarrow> bool \<Rightarrow> label list" where
  "targets_match self tgt useMatch =
     (if useMatch then
        fold (\<lambda>(k, v) result_set. if match k tgt \<noteq> None then set_add k result_set
                                   else result_set) self []
      else [tgt])"

section \<open>The solver (muddled/depend.py, needed_to_build)\<close>

text \<open>
  Python fixes no order in which a \<open>for\<close> loop runs through a set.  The order is a
  parameter: a function that is given the set's elements and returns them in the order of
  the loop.  \<open>iterate\<close> uses it when it returns a rearrangement of its argument, and
  the elements as they are otherwise.  Two such functions are taken, one for sets of
  labels and one for sets of rules.
\<close>

definition iterate :: "('x list \<Rightarrow> 'x list) \<Rightarrow> 'x list \<Rightarrow> 'x list" where
  "iterate ord xs = (if mset (ord xs) = mset xs then ord xs else xs)"

text \<open>
  The two \<open>utils.Error\<close>s of the solver: the rule list of a target is empty; the graph
  is circular or incomplete (with the targets left and the rule list so far).
\<close>

datatype 'a solver_error =
    RuleListEmpty label
  | CircularOrIncomplete "label list" "'a rule list"

text \<open>The variables one pass of the \<open>while\<close> loop changes.\<close>

record 'a pass_state =
  new_targets :: "label list"
  rule_list :: "'a rule list"
  rule_target_set :: "label list"
  done_something :: bool

text \<open>
  The body of \<open>for dep in rule.deps\<close>; the flag \<open>can_build_target\<close> is carried beside
  the state.
\<close>

definition dep_step :: "label list \<Rightarrow> label \<Rightarrow> 'a pass_state \<times> bool \<Rightarrow> 'a pass_state \<times> bool" where
  "dep_step targets dep acc =
     (case acc of (st, can_build_target) \<Rightarrow>
        if \<not> label_in dep (rule_target_set st) then
          ((if \<not> label_in dep (new_targets st) \<and> \<not> label_in dep targets
            then st\<lparr>new_targets := set_add dep (new_targets st), done_something := True\<rparr>
            else st), False)
        else (st, can_build_target))"

text \<open>
  The body of \<open>for tgt in targets\<close>.  After \<open>for rule in rules\<close> the variable
  \<open>rule\<close> still holds the rule of the last round, and that is the rule appended.
\<close>

definition target_step :: "('a rule list \<Rightarrow> 'a rule list) \<Rightarrow> 'a ruleset \<Rightarrow> bool \<Rightarrow> label list \<Rightarrow>
    label \<Rightarrow> 'a pass_state \<Rightarrow> 'a solver_error + 'a pass_state" where
  "target_step rord ruleset useTags targets tgt st =
     (let rules = rules_for_target ruleset tgt useTags True in
      if length rules = 0 then Inl (RuleListEmpty tgt)
      else
        (case fold (\<lambda>rule acc. fold (dep_step targets) (deps rule) acc)
                (iterate rord rules) (st, True) of
           (st1, can_build_target) \<Rightarrow>
             if can_build_target then
               Inr (st1\<lparr>rule_list := rule_list st1 @ [last (iterate rord rules)],
                        rule_target_set := set_add tgt (rule_target_set st1),
                        done_something := True\<rparr>)
             else Inr (st1\<lparr>new_targets := set_add tgt (new_targets st1)\<rparr>)))"

fun for_targets :: "('a rule list \<Rightarrow> 'a rule list) \<Rightarrow> 'a ruleset \<Rightarrow> bool \<Rightarrow> label list \<Rightarrow>
    label list \<Rightarrow> 'a pass_state \<Rightarrow> 'a solver_error + 'a pass_state" where
  "for_targets rord ruleset useTags targets [] st = Inr st"
| "for_targets rord ruleset useTags targets (tgt # rest) st =
     (case target_step rord ruleset useTags targets tgt st of
        Inl e \<Rightarrow> Inl e
      | Inr st1 \<Rightarrow> for_targets rord ruleset useTags targets rest st1)"

text \<open>One pass over the targets that are left, from \<open>new_targets = set()\<close> on.\<close>

definition pass :: "(label list \<Rightarrow> label list) \<Rightarrow> ('a rule list \<Rightarrow> 'a rule list) \<Rightarrow> 'a ruleset \<Rightarrow>
    bool \<Rightarrow> label list \<Rightarrow> 'a rule list \<Rightarrow> label list \<Rightarrow> 'a solver_error + 'a pass_state" where
  "pass lord rord ruleset useTags targets rl rts =
     for_targets rord ruleset useTags targets (iterate lord targets)
       \<lparr>new_targets = [], rule_list = rl, rule_target_set = rts, done_something = False\<rparr>"

text \<open>
  The \<open>while done_something\<close> loop, one round per call.  Not returning is the value
  \<open>None\<close>; that the loop always returns is proved below.
\<close>

partial_function (option) needed_loop :: "(label list \<Rightarrow> label list) \<Rightarrow>
    ('a rule list \<Rightarrow> 'a rule list) \<Rightarrow> 'a ruleset \<Rightarrow> bool \<Rightarrow> label list \<Rightarrow> 'a rule list \<Rightarrow>
    label list \<Rightarrow> ('a solver_error + 'a rule list) option" where
  "needed_loop lord rord ruleset useTags targets rl rts =
     (if length (set_minus targets rts) = 0 then Some (Inr rl)
      else
        (case pass lord rord ruleset useTags (set_minus targets rts) rl rts of
           Inl e \<Rightarrow> Some (Inl e)
         | Inr st \<Rightarrow>
             if done_something st
             then needed_loop lord rord ruleset useTags (new_targets st) (rule_list st)
                    (rule_target_set st)
             else Some (Inl (CircularOrIncomplete (new_targets st) (rule_list st)))))"

declare needed_loop.simps [code]

text \<open>
  \<open>needed_to_build(ruleset, target, useTags = True, useMatch = False)\<close>:
  \<open>targets.update\<close> adds the matching targets one by one to the empty set.
\<close>

definition needed_to_build :: "(label list \<Rightarrow> label list) \<Rightarrow> ('a rule list \<Rightarrow> 'a rule list) \<Rightarrow>
    'a ruleset \<Rightarrow> label \<Rightarrow> bool \<Rightarrow> bool \<Rightarrow> ('a solver_error + 'a rule list) option" where
  "needed_to_build lord rord ruleset tgt useTags useMatch =
     needed_loop lord rord ruleset useTags
       (fold set_add (iterate lord (targets_match ruleset tgt useMatch)) []) [] []"

text \<open>The keys of all dependencies in a rule set: the labels a pass can add as targets.\<close>

definition dep_keys :: "'a ruleset \<Rightarrow> label_tuple set" where
  "dep_keys ruleset = (\<Union>(k, v)\<in>set ruleset. label_keys (deps v))"

text \<open>
  The keys of the dependencies of all rules that match a target: what must be satisfied
  before the target is ready.
\<close>

definition needs :: "'a ruleset \<Rightarrow> label \<Rightarrow> label_tuple set" where
  "needs ruleset t = label_keys (concat (map deps (rules_for_target ruleset t True True)))"

text \<open>
  What the loops over the dependencies \<open>D\<close> of the rules of one target do to the
  state, with \<open>T\<close> the keys of the targets of the pass.
\<close>

definition dep_post :: "label_tuple set \<Rightarrow> label_tuple set \<Rightarrow> 'a pass_state \<Rightarrow> bool \<Rightarrow>
    'a pass_state \<Rightarrow> bool \<Rightarrow> bool" where
  "dep_post D T st can st' can' =
     (rule_list st' = rule_list st \<and> rule_target_set st' = rule_target_set st \<and>
      label_keys (new_targets st') =
        label_keys (new_targets st) \<union> (D - label_keys (rule_target_set st) - T) \<and>
      can' = (can \<and> D \<subseteq> label_keys (rule_target_set st)) \<and>
      done_something st' = (done_something st \<or>
         \<not> (D - label_keys (rule_target_set st) - T \<subseteq> label_keys (new_targets st))) \<and>
      (distinct (map as_tuple (new_targets st)) \<longrightarrow> distinct (map as_tuple (new_targets st'))) \<and>
      (D \<subseteq> label_keys (rule_target_set st) \<longrightarrow> st' = st))"

definition solved :: "'a ruleset \<Rightarrow> 'a rule list \<Rightarrow> label list \<Rightarrow> bool" where
  "solved ruleset rl rts =
     (length rl = length rts \<and> distinct (map as_tuple rts) \<and>
      (\<forall>i<length rts. rl ! i \<in> set (rules_for_target ruleset (rts ! i) True True) \<and>
                       needs ruleset (rts ! i) \<subseteq> label_keys (take i rts)))"

definition step_post :: "'a ruleset \<Rightarrow> label list \<Rightarrow> label \<Rightarrow> 'a pass_state \<Rightarrow> 'a pass_state \<Rightarrow> bool" where
  "step_post ruleset T tgt st st' =
     (rules_for_target ruleset tgt True True \<noteq> [] \<and>
      (if needs ruleset tgt \<subseteq> label_keys (rule_target_set st)
       then (\<exists>r\<in>set (rules_for_target ruleset tgt True True).
               st' = st\<lparr>rule_list := rule_list st @ [r],
                        rule_target_set := set_add tgt (rule_target_set st),
                        done_something := True\<rparr>)
       else rule_list st' = rule_list st \<and> rule_target_set st' = rule_target_set st \<and>
            label_keys (new_targets st') =
              insert (as_tuple tgt) (label_keys (new_targets st) \<union>
                (needs ruleset tgt - label_keys (rule_target_set st) - label_keys T)) \<and>
            done_something st' = (done_something st \<or>
              \<not> (needs ruleset tgt - label_keys (rule_target_set st) - label_keys T
                   \<subseteq> label_keys (new_targets st))) \<and>
            (distinct (map as_tuple (new_targets st)) \<longrightarrow>
               distinct (map as_tuple (new_targets st')))))"

text \<open>
  Matching, and with it the rules of a target and what it needs, look at the key of a
  label only.  \<open>label_of\<close> is a label with a given key, \<open>key_needs\<close> is \<open>needs\<close>
  as a function of the key.
\<close>

definition label_of :: "label_tuple \<Rightarrow> label" where
  "label_of k = (case k of (ty, dm, nm, rl, tg) \<Rightarrow>
     \<lparr>type = ty, domain = dm, name = nm, role = rl, tag = tg, transient = None, system = None\<rparr>)"

definition key_needs :: "'a ruleset \<Rightarrow> label_tuple \<Rightarrow> label_tuple set" where
  "key_needs ruleset k = needs ruleset (label_of k)"

definition frameP :: "'k set \<Rightarrow> 'k set \<Rightarrow> 'k set \<Rightarrow> 'k set \<Rightarrow> 'k set \<Rightarrow> 'k set \<Rightarrow> 'k set \<Rightarrow> 'k set \<Rightarrow>
    bool \<Rightarrow> bool \<Rightarrow> bool" where
  "frameP Rz R Nz N TSz REST DK TT dnz dn =
     (Rz \<subseteq> R \<and> R \<subseteq> Rz \<union> TSz \<and> Nz \<subseteq> N \<and> Nz \<union> TSz \<subseteq> N \<union> R \<union> REST \<and>
      N \<subseteq> Nz \<union> TSz \<union> (DK - Rz - TT) \<and> REST \<subseteq> TSz \<and>
      (dn \<longrightarrow> dnz \<or> \<not> N \<subseteq> Nz \<union> TSz \<or> \<not> R \<subseteq> Rz) \<and> REST \<inter> R = {})"

definition pass_frame :: "'a ruleset \<Rightarrow> label list \<Rightarrow> 'a pass_state \<Rightarrow> label list \<Rightarrow> label list \<Rightarrow>
    'a pass_state \<Rightarrow> bool" where
  "pass_frame rs T st0 ts0 rest st =
     (frameP (label_keys (rule_target_set st0)) (label_keys (rule_target_set st))
        (label_keys (new_targets st0)) (label_keys (new_targets st))
        (label_keys ts0) (label_keys rest) (\<Union>k\<in>label_keys ts0. key_needs rs k) (label_keys T)
        (done_something st0) (done_something st) \<and>
      distinct (map as_tuple rest) \<and> distinct (map as_tuple (new_targets st)))"

definition pass_inv :: "'a ruleset \<Rightarrow> label list \<Rightarrow> 'a pass_state \<Rightarrow> label list \<Rightarrow> label list \<Rightarrow>
    'a pass_state \<Rightarrow> bool" where
  "pass_inv rs T st0 ts0 rest st =
     (pass_frame rs T st0 ts0 rest st \<and> solved rs (rule_list st) (rule_target_set st))"

definition stuckP :: "('k \<Rightarrow> 'k set) \<Rightarrow> 'k set \<Rightarrow> 'k set \<Rightarrow> 'k set \<Rightarrow> 'k set \<Rightarrow> 'k set \<Rightarrow> 'k set \<Rightarrow>
    bool" where
  "stuckP nd TSz REST Rz TT Nz N =
     (REST \<subseteq> TSz \<and> N \<subseteq> Nz \<union> TSz \<and>
      (\<forall>k\<in>TSz. k \<in> REST \<or> (\<exists>d\<in>nd k. d \<notin> Rz \<and> d \<in> TT \<union> N)))"

definition pass_stuck :: "'a ruleset \<Rightarrow> label list \<Rightarrow> 'a pass_state \<Rightarrow> label list \<Rightarrow> label list \<Rightarrow>
    'a pass_state \<Rightarrow> bool" where
  "pass_stuck rs T st0 ts0 rest st =
     (\<not> done_something st \<longrightarrow>
        rule_list st = rule_list st0 \<and> rule_target_set st = rule_target_set st0 \<and>
        stuckP (key_needs rs) (label_keys ts0) (label_keys rest)
          (label_keys (rule_target_set st0)) (label_keys T) (label_keys (new_targets st0))
          (label_keys (new_targets st)))"

text \<open>
  The keys reachable from a set of keys along dependencies, for a function \<open>nd\<close> that
  gives a key the keys it needs.
\<close>

definition reachable :: "('k \<Rightarrow> 'k set) \<Rightarrow> 'k set \<Rightarrow> 'k set" where
  "reachable nd S = {d. \<exists>k\<in>S. (d, k) \<in> {(d, k). d \<in> nd k}\<^sup>*}"

text \<open>
  What the loop of the solver returns, for the keys \<open>S\<close> of the targets and satisfied
  targets it started from.
\<close>

definition loop_post :: "'a ruleset \<Rightarrow> label_tuple set \<Rightarrow> 'a solver_error + 'a rule list \<Rightarrow> bool" where
  "loop_post rs S res =
     (case res of
        Inr rl \<Rightarrow> (\<exists>rts. solved rs rl rts \<and> S \<subseteq> label_keys rts \<and>
                        label_keys rts \<subseteq> reachable (key_needs rs) S)
      | Inl (RuleListEmpty t) \<Rightarrow>
          rules_for_target rs t True True = [] \<and> as_tuple t \<in> reachable (key_needs rs) S
      | Inl (CircularOrIncomplete residual partial) \<Rightarrow>
          residual \<noteq> [] \<and> label_keys residual \<subseteq> reachable (key_needs rs) S \<and>
          (\<forall>k\<in>label_keys residual. \<exists>d\<in>key_needs rs k. d \<in> label_keys residual) \<and>
          (\<exists>rts. solved rs partial rts))"

text \<open>
  A rule set as \<open>RuleSet.add\<close> builds it: every rule is stored under its own target.
\<close>

definition keyed_by_target :: "'a ruleset \<Rightarrow> bool" where
  "keyed_by_target rs = (\<forall>(k, v)\<in>set rs. label_eq k (target v))"

text \<open>Example inputs: three labels and the rules over them used below.\<close>

definition checkout_a :: label where
  "checkout_a = \<lparr>type = ''checkout'', domain = None, name = ''a'', role = None,
     tag = ''checked_out'', transient = Some False, system = Some False\<rparr>"

definition checkout_any :: label where
  "checkout_any = \<lparr>type = ''checkout'', domain = None, name = ''*'', role = None,
     tag = ''checked_out'', transient = Some False, system = Some False\<rparr>"

definition package_a :: label where
  "package_a = \<lparr>type = ''package'', domain = None, name = ''a'', role = None,
     tag = ''built'', transient = Some False, system = Some False\<rparr>"

definition depend_none :: "'a option \<Rightarrow> label \<Rightarrow> 'a rule" where
  "depend_none ob l = \<lparr>target = l, obj = ob, deps = []\<rparr>"

definition depend_one :: "'a option \<Rightarrow> label \<Rightarrow> label \<Rightarrow> 'a rule" where
  "depend_one ob l dep_label = rule_add dep_label \<lparr>target = l, obj = ob, deps = []\<rparr>"

text \<open>
  A rule set with a dependency and with two rules that match one target: the package
  depends on the checkout, which has a rule of its own and is matched by the wildcard rule.
\<close>

definition package_a_rules :: "nat ruleset" where
  "package_a_rules =
     [(package_a, depend_one None package_a checkout_a),
      (checkout_a, depend_none None checkout_a),
      (checkout_any, depend_none None checkout_any)]"

text \<open>
  The keys the solver needs for a query: those of the matching targets and of everything
  they depend on, directly or not.  \<open>every_target_has_rule\<close> and \<open>graph_acyclic\<close>
  say of this part of the dependency graph that it is complete and that it has no cycle.
\<close>

definition needed_keys :: "'a ruleset \<Rightarrow> label \<Rightarrow> bool \<Rightarrow> label_tuple set" where
  "needed_keys rs q useMatch =
     reachable (key_needs rs) (label_keys (targets_match rs q useMatch))"

definition every_target_has_rule :: "'a ruleset \<Rightarrow> label \<Rightarrow> bool \<Rightarrow> bool" where
  "every_target_has_rule rs q useMatch =
     (\<forall>k\<in>needed_keys rs q useMatch. rules_for_target rs (label_of k) True True \<noteq> [])"

definition graph_acyclic :: "'a ruleset \<Rightarrow> label \<Rightarrow> bool \<Rightarrow> bool" where
  "graph_acyclic rs q useMatch =
     acyclic {(d, k). k \<in> needed_keys rs q useMatch \<and> d \<in> key_needs rs k}"

section \<open>Commands (muddled/commands.py)\<close>

text \<open>
  The kinds of \<open>utils.LabelType\<close>, with the values the docstring of \<open>Label\<close>
  gives for the type of a label.
\<close>

definition LabelType_Checkout :: string where
  "LabelType_Checkout = ''checkout''"

definition LabelType_Package :: string where
  "LabelType_Package = ''package''"

definition LabelType_Deployment :: string where
  "LabelType_Deployment = ''deployment''"

text \<open>
  Modelled from the spec: \<open>Label.copy_with_tag\<close> is not a method of the class
  \<open>Label\<close> modelled above; \<open>with_tag(new_tag)\<close> is a value-preserving copy with
  the new tag, which is also what \<open>retag_label_list\<close> does to each label of a list.
\<close>

definition copy_with_tag :: "label \<Rightarrow> string \<Rightarrow> label" where
  "copy_with_tag self new_tag = (copy self)\<lparr>tag := new_tag\<rparr>"

text \<open>
  \<open>if self.required_tag and label.tag != self.required_tag:
  label = label.copy_with_tag(self.required_tag)\<close>, with the class attribute
  \<open>required_tag\<close> a string or \<open>None\<close>.
\<close>

definition force_tag :: "string option \<Rightarrow> label \<Rightarrow> label" where
  "force_tag required_tag l =
     (case required_tag of
        None \<Rightarrow> l
      | Some rt \<Rightarrow> if rt \<noteq> [] \<and> tag l \<noteq> rt then copy_with_tag l rt else l)"

text \<open>
  What the commands use of \<open>builder.invocation\<close>, taken as parameters: the
  resolution of a fragment (given the default kind), the test whether a label is a
  target, the sets of all checkout and all package labels, the rule set and the default
  roles.
\<close>

record 'a invocation =
  label_from_fragment :: "string \<Rightarrow> string \<Rightarrow> label list"
  target_label_exists :: "label \<Rightarrow> bool"
  all_checkout_labels :: "label list"
  all_package_labels :: "label list"
  inv_ruleset :: "'a ruleset"
  default_roles :: "string list"

datatype 'a command_error =
    GiveUp
  | SolverError "'a solver_error"
  | NoRulesMatch label

text \<open>
  The first loop of \<open>decode_args\<close>, the same in both commands but for the default kind
  and the labels of \<open>_all\<close>: the labels of each word that are targets, in order.
\<close>

fun initial_list_of :: "(label list \<Rightarrow> label list) \<Rightarrow> 'a invocation \<Rightarrow> string \<Rightarrow> label list \<Rightarrow>
    string list \<Rightarrow> label list \<Rightarrow> 'a command_error + label list" where
  "initial_list_of lord b default_type all_labels [] initial_list = Inr initial_list"
| "initial_list_of lord b default_type all_labels (word # rest) initial_list =
     (if word = ''_all''
      then initial_list_of lord b default_type all_labels rest
             (initial_list @ iterate lord all_labels)
      else
        (let labels = label_from_fragment b word default_type;
             used_labels = filter (target_label_exists b) labels
         in if used_labels = [] then Inl GiveUp
            else initial_list_of lord b default_type all_labels rest
                   (initial_list @ used_labels)))"

text \<open>\<open>RuleSet.rules_which_depend_on\<close> and \<open>required_by\<close> of depend.py.\<close>

definition rules_which_depend_on :: "'a ruleset \<Rightarrow> label \<Rightarrow> bool \<Rightarrow> bool \<Rightarrow> 'a rule list" where
  "rules_which_depend_on self l useTags useMatch =
     fold (\<lambda>(k, v) result_set.
        if useMatch then
          (if \<exists>dep\<in>set (deps v). match dep l \<noteq> None then rule_set_add v result_set
           else result_set)
        else if useTags then
          (if label_in l (deps v) then rule_set_add v result_set else result_set)
        else
          (if \<exists>dep\<in>set (deps v). match_without_tag dep l then rule_set_add v result_set
           else result_set)) self []"

text \<open>
  One round of the \<open>while True\<close> loop of \<open>required_by\<close>: the set
  \<open>extra\<close> of the targets of the rules that depend on a label of \<open>depends\<close>
  and are not in \<open>depends\<close> (the list \<open>return_val\<close> is filled but never
  returned, and left out).
\<close>

definition new_dependents :: "(label list \<Rightarrow> label list) \<Rightarrow> ('a rule list \<Rightarrow> 'a rule list) \<Rightarrow>
    'a ruleset \<Rightarrow> bool \<Rightarrow> bool \<Rightarrow> label list \<Rightarrow> label list" where
  "new_dependents lord rord ruleset useTags useMatch depends =
     fold (\<lambda>dep extra.
          fold (\<lambda>rule extra. if \<not> label_in (target rule) depends
                              then set_add (target rule) extra else extra)
            (iterate rord (rules_which_depend_on ruleset dep useTags useMatch)) extra)
          (iterate lord depends) []"

text \<open>
  The loop itself, one round per call.  Not returning is the value \<open>None\<close>; that
  the loop always returns is proved below.
\<close>

partial_function (option) required_loop :: "(label list \<Rightarrow> label list) \<Rightarrow>
    ('a rule list \<Rightarrow> 'a rule list) \<Rightarrow> 'a ruleset \<Rightarrow> bool \<Rightarrow> bool \<Rightarrow> label list \<Rightarrow>
    label list option" where
  "required_loop lord rord ruleset useTags useMatch depends =
     (let extra = new_dependents lord rord ruleset useTags useMatch depends
      in if length extra > 0
         then required_loop lord rord ruleset useTags useMatch
                (fold set_add (iterate lord extra) depends)
         else Some depends)"

declare required_loop.simps [code]

definition required_by :: "(label list \<Rightarrow> label list) \<Rightarrow> ('a rule list \<Rightarrow> 'a rule list) \<Rightarrow>
    'a ruleset \<Rightarrow> label \<Rightarrow> bool \<Rightarrow> bool \<Rightarrow> ('a command_error + label list) option" where
  "required_by lord rord ruleset l useTags useMatch =
     (let rules = rules_for_target ruleset l True useMatch in
      if length rules = 0 then Some (Inl (NoRulesMatch l))
      else map_option Inr
             (required_loop lord rord ruleset useTags useMatch
                (fold (\<lambda>r depends. set_add (target r) depends) (iterate rord rules) [])))"

text \<open>
  Adding the targets of one kind among the rules needed to build a label, each with the
  required tag (the inner loop of the second loop of \<open>decode_args\<close>).
\<close>

definition add_targets_of_kind :: "string \<Rightarrow> string option \<Rightarrow> 'a rule list \<Rightarrow> label list \<Rightarrow> label list" where
  "add_targets_of_kind kind required_tag rules result_set =
     fold (\<lambda>r result_set.
        if type (target r) = kind then set_add (force_tag required_tag (target r)) result_set
        else result_set) rules result_set"

text \<open>The second loop of \<open>CheckoutCommand.decode_args\<close>.\<close>

fun checkout_labels :: "(label list \<Rightarrow> label list) \<Rightarrow> ('a rule list \<Rightarrow> 'a rule list) \<Rightarrow>
    'a invocation \<Rightarrow> string option \<Rightarrow> label list \<Rightarrow> label list \<Rightarrow>
    ('a command_error + label list) option" where
  "checkout_labels lord rord b required_tag [] result_set = Some (Inr result_set)"
| "checkout_labels lord rord b required_tag (l # rest) result_set =
     (if type l = LabelType_Checkout then
        checkout_labels lord rord b required_tag rest
          (set_add (force_tag required_tag l) result_set)
      else if type l = LabelType_Package \<or> type l = LabelType_Deployment then
        (case needed_to_build lord rord (inv_ruleset b) l True False of
           None \<Rightarrow> None
         | Some (Inl e) \<Rightarrow> Some (Inl (SolverError e))
         | Some (Inr rules) \<Rightarrow>
             checkout_labels lord rord b required_tag rest
               (add_targets_of_kind LabelType_Checkout required_tag rules result_set))
      else Some (Inl GiveUp))"

definition checkout_decode_args :: "(label list \<Rightarrow> label list) \<Rightarrow> ('a rule list \<Rightarrow> 'a rule list) \<Rightarrow>
    'a invocation \<Rightarrow> string option \<Rightarrow> string list \<Rightarrow> ('a command_error + label list) option" where
  "checkout_decode_args lord rord b required_tag args =
     (case initial_list_of lord b LabelType_Checkout (all_checkout_labels b) args [] of
        Inl e \<Rightarrow> Some (Inl e)
      | Inr initial_list \<Rightarrow>
          (case checkout_labels lord rord b required_tag initial_list [] of
             None \<Rightarrow> None
           | Some (Inl e) \<Rightarrow> Some (Inl e)
           | Some (Inr result_set) \<Rightarrow> Some (Inr (iterate lord result_set))))"

text \<open>
  \<open>PackageCommand.packages_from_checkout_label\<close>, and the test
  \<open>label.type in (LabelType.Deployment)\<close>: the parentheses make no tuple, so this is the
  test whether the type is a substring of \<open>deployment\<close>.
\<close>

definition is_substring :: "string \<Rightarrow> string \<Rightarrow> bool" where
  "is_substring xs ys = (\<exists>i\<in>set [0..<Suc (length ys)]. take (length xs) (drop i ys) = xs)"

definition packages_from_checkout_label :: "(label list \<Rightarrow> label list) \<Rightarrow>
    ('a rule list \<Rightarrow> 'a rule list) \<Rightarrow> 'a invocation \<Rightarrow> string option \<Rightarrow> label \<Rightarrow>
    ('a command_error + label list) option" where
  "packages_from_checkout_label lord rord b required_tag l =
     (case required_by lord rord (inv_ruleset b) l True True of
        None \<Rightarrow> None
      | Some (Inl e) \<Rightarrow> Some (Inl e)
      | Some (Inr required_labels) \<Rightarrow>
          Some (Inr (fold (\<lambda>l result_set.
             if type l = LabelType_Package \<and>
                (case role l of None \<Rightarrow> False | Some r \<Rightarrow> r \<in> set (default_roles b))
             then set_add (force_tag required_tag l) result_set else result_set)
            (iterate lord required_labels) [])))"

text \<open>The second loop of \<open>PackageCommand.decode_args\<close>.\<close>

fun package_labels :: "(label list \<Rightarrow> label list) \<Rightarrow> ('a rule list \<Rightarrow> 'a rule list) \<Rightarrow>
    'a invocation \<Rightarrow> string option \<Rightarrow> label list \<Rightarrow> label list \<Rightarrow>
    ('a command_error + label list) option" where
  "package_labels lord rord b required_tag [] result_set = Some (Inr result_set)"
| "package_labels lord rord b required_tag (l # rest) result_set =
     (if type l = LabelType_Package then
        package_labels lord rord b required_tag rest
          (set_add (force_tag required_tag l) result_set)
      else if type l = LabelType_Checkout then
        (case packages_from_checkout_label lord rord b required_tag l of
           None \<Rightarrow> None
         | Some (Inl e) \<Rightarrow> Some (Inl e)
         | Some (Inr packages) \<Rightarrow>
             package_labels lord rord b required_tag rest
               (fold set_add (iterate lord packages) result_set))
      else if is_substring (type l) LabelType_Deployment then
        (case needed_to_build lord rord (inv_ruleset b) l True False of
           None \<Rightarrow> None
         | Some (Inl e) \<Rightarrow> Some (Inl (SolverError e))
         | Some (Inr rules) \<Rightarrow>
             package_labels lord rord b required_tag rest
               (add_targets_of_kind LabelType_Package required_tag rules result_set))
      else Some (Inl GiveUp))"

definition package_decode_args :: "(label list \<Rightarrow> label list) \<Rightarrow> ('a rule list \<Rightarrow> 'a rule list) \<Rightarrow>
    'a invocation \<Rightarrow> string option \<Rightarrow> string list \<Rightarrow> ('a command_error + label list) option" where
  "package_decode_args lord rord b required_tag args =
     (case initial_list_of lord b LabelType_Package (all_package_labels b) args [] of
        Inl e \<Rightarrow> Some (Inl e)
      | Inr initial_list \<Rightarrow>
          (case package_labels lord rord b required_tag initial_list [] of
             None \<Rightarrow> None
           | Some (Inl e) \<Rightarrow> Some (Inl e)
           | Some (Inr result_set) \<Rightarrow> Some (Inr (iterate lord result_set))))"

text \<open>
  An invocation to run the commands on: a word that is a label string resolves to the
  label it denotes, any other word to the label of that name in the default kind with a
  wildcard tag; the targets are the labels named \<open>a\<close>.
\<close>

definition example_invocation :: "nat invocation" where
  "example_invocation =
     \<lparr>label_from_fragment = (\<lambda>word default_type.
          case from_string word of
            Inr l \<Rightarrow> [l]
          | Inl e \<Rightarrow> [\<lparr>type = default_type, domain = None, name = word, role = None,
                        tag = ''*'', transient = Some False, system = Some False\<rparr>]),
      target_label_exists = (\<lambda>l. name l = ''a''),
      all_checkout_labels = [checkout_a],
      all_package_labels = [package_a],
      inv_ruleset = package_a_rules,
      default_roles = []\<rparr>"

section \<open>Distributions (muddled/distribute.py)\<close>

text \<open>
  The tags of \<open>utils.LabelTag\<close> that \<open>distribute.py\<close> uses, written as they are in
  label strings.
\<close>

definition LabelTag_CheckedOut :: string where
  "LabelTag_CheckedOut = ''checked_out''"

definition LabelTag_PostInstalled :: string where
  "LabelTag_PostInstalled = ''postinstalled''"

definition LabelTag_Distributed :: string where
  "LabelTag_Distributed = ''distributed''"

text \<open>
  The data a distribute action keeps for a distribution name: \<open>copy_vcs_dir\<close> in a
  \<open>DistributeCheckout\<close>, the tuple \<open>(binary, source, copy_vcs_dir)\<close> in a
  \<open>DistributePackage\<close>.
\<close>

datatype distribution_data =
    CopyVcsDir bool
  | BinarySourceVcs bool bool bool

text \<open>
  \<open>DistributeAction\<close>: its one field is the dictionary \<open>distributions\<close>, kept as
  the list of its items.  \<open>dict_set\<close> is \<open>d[k] = v\<close>: the value of a key that is
  there is replaced, a new key is added.
\<close>

record distribute_action =
  distributions :: "(string \<times> distribution_data) list"

fun dict_set :: "'k \<Rightarrow> 'v \<Rightarrow> ('k \<times> 'v) list \<Rightarrow> ('k \<times> 'v) list" where
  "dict_set k v [] = [(k, v)]"
| "dict_set k v ((k', v') # rest) =
     (if k' = k then (k, v) # rest else (k', v') # dict_set k v rest)"

datatype distribute_error = MuddleBug | KeyError | AttributeError

definition DistributeAction :: "string \<Rightarrow> distribution_data \<Rightarrow> distribute_action" where
  "DistributeAction dname data = \<lparr>distributions = [(dname, data)]\<rparr>"

definition add_distribution :: "distribute_action \<Rightarrow> string \<Rightarrow> distribution_data \<Rightarrow>
    distribute_action" where
  "add_distribution self dname data =
     self\<lparr>distributions := dict_set dname data (distributions self)\<rparr>"

definition get_distribution :: "distribute_action \<Rightarrow> string \<Rightarrow>
    distribute_error + distribution_data" where
  "get_distribution self dname =
     (case map_of (distributions self) dname of
        Some data \<Rightarrow> Inr data
      | None \<Rightarrow> Inl MuddleBug)"

definition does_distribution :: "distribute_action \<Rightarrow> string \<Rightarrow> bool" where
  "does_distribution self dname = (dname \<in> fst ` set (distributions self))"

text \<open>The constructors of \<open>DistributeCheckout\<close> and \<open>DistributePackage\<close>.\<close>

definition DistributeCheckout :: "string \<Rightarrow> bool \<Rightarrow> distribute_action" where
  "DistributeCheckout dname copy_vcs_dir = DistributeAction dname (CopyVcsDir copy_vcs_dir)"

definition DistributePackage :: "string \<Rightarrow> bool \<Rightarrow> bool \<Rightarrow> bool \<Rightarrow> distribute_action" where
  "DistributePackage dname binary source copy_vcs_dir =
     DistributeAction dname (BinarySourceVcs binary source copy_vcs_dir)"

text \<open>
  \<open>distribute_checkout(builder, name, label, copy_vcs_dir)\<close>.  The state is the rule
  set of the invocation, with the action as the object of a rule;
  \<open>invocation.target_label_exists\<close> is a parameter, a test on the rule set and a label.
  When the target exists, \<open>ruleset.map[target_label]\<close> is the \<open>Rule\<close> stored for it
  (or a \<open>KeyError\<close>), and the call of \<open>add_distribution\<close> on it is an
  \<open>AttributeError\<close>: a \<open>Rule\<close> has no such method.
\<close>

definition distribute_checkout :: "(distribute_action ruleset \<Rightarrow> label \<Rightarrow> bool) \<Rightarrow>
    distribute_action ruleset \<Rightarrow> string \<Rightarrow> label \<Rightarrow> bool \<Rightarrow>
    distribute_error + distribute_action ruleset" where
  "distribute_checkout target_exists ruleset dname l copy_vcs_dir =
     (if type l \<noteq> LabelType_Checkout then Inl MuddleBug
      else
        (let source_label = copy_with_tag l LabelTag_CheckedOut;
             target_label = copy_with_tag l LabelTag_Distributed
         in if target_exists ruleset target_label then
              (case map_get ruleset target_label of
                 None \<Rightarrow> Inl KeyError
               | Some action \<Rightarrow> Inl AttributeError)
            else
              (let action = DistributeCheckout dname copy_vcs_dir;
                   rule = \<lparr>target = target_label, obj = Some action, deps = []\<rparr>
               in Inr (ruleset_add (rule_add source_label rule) ruleset))))"

text \<open>
  \<open>distribute_package(builder, name, label, binary, source, copy_vcs_dir)\<close>.  The new
  action is \<open>DistributePackage(name)\<close>, with the defaults of its other arguments; with
  the target there, the method called on the rule is \<open>add_context_name\<close>, which no
  class has.
\<close>

definition distribute_package :: "(distribute_action ruleset \<Rightarrow> label \<Rightarrow> bool) \<Rightarrow>
    distribute_action ruleset \<Rightarrow> string \<Rightarrow> label \<Rightarrow> bool \<Rightarrow> bool \<Rightarrow> bool \<Rightarrow>
    distribute_error + distribute_action ruleset" where
  "distribute_package target_exists ruleset dname l binary source copy_vcs_dir =
     (if type l \<noteq> LabelType_Package then Inl MuddleBug
      else
        (let source_label = copy_with_tag l LabelTag_PostInstalled;
             target_label = copy_with_tag l LabelTag_Distributed
         in if target_exists ruleset target_label then
              (case map_get ruleset target_label of
                 None \<Rightarrow> Inl KeyError
               | Some action \<Rightarrow> Inl AttributeError)
            else
              (let action = DistributePackage dname True False False;
                   rule = \<lparr>target = target_label, obj = Some action, deps = []\<rparr>
               in Inr (ruleset_add (rule_add source_label rule) ruleset))))"

text \<open>A test for the existence of a target: the rule set has a rule stored for the label.\<close>

definition has_rule :: "'a ruleset \<Rightarrow> label \<Rightarrow> bool" where
  "has_rule ruleset l = (map_get ruleset l \<noteq> None)"

text \<open>
  The rule sets after a first request for \<open>checkout:a\<close> and for \<open>package:a\<close> in
  the distribution \<open>d1\<close>.
\<close>

definition distributed_checkout_a :: "distribute_action ruleset" where
  "distributed_checkout_a =
     [(checkout_a\<lparr>tag := ''distributed''\<rparr>,
       \<lparr>target = checkout_a\<lparr>tag := ''distributed''\<rparr>,
        obj = Some (DistributeCheckout ''d1'' False),
        deps = [checkout_a]\<rparr>)]"

definition distributed_package_a :: "distribute_action ruleset" where
  "distributed_package_a =
     [(package_a\<lparr>tag := ''distributed''\<rparr>,
       \<lparr>target = package_a\<lparr>tag := ''distributed''\<rparr>,
        obj = Some (DistributePackage ''d1'' True False False),
        deps = [package_a\<lparr>tag := ''postinstalled''\<rparr>]\<rparr>)]"

section \<open>Properties of labels\<close>

lemma label_cmp_zero_iff: "label_cmp a b = 0 \<longleftrightarrow> as_tuple a = as_tuple b"
  by (auto simp: label_cmp_def Let_def)

lemma label_eq_iff: "label_eq a b \<longleftrightarrow> as_tuple a = as_tuple b"
  by (simp add: label_eq_def label_cmp_zero_iff)

lemma part_step_None [simp]: "part_step star a b None = None"
  by (simp add: part_step_def)

lemma part_step_same [simp]: "part_step star a a acc = acc"
  by (cases acc) (simp_all add: part_step_def)

lemma part_step_eq:
  "part_step star x y acc =
     (if plain_difference star x y then None
      else map_option (\<lambda>n. n + (if wildcard_difference star x y then 1 else 0)) acc)"
  by (cases acc) (auto simp: part_step_def plain_difference_def wildcard_difference_def)

lemma part_steps_chain:
  "(if p5 then None else map_option (\<lambda>n. n + w5)
     (if p4 then None else map_option (\<lambda>n. n + w4)
       (if p3 then None else map_option (\<lambda>n. n + w3)
         (if p2 then None else map_option (\<lambda>n. n + w2)
           (if p1 then None else map_option (\<lambda>n. n + w1) (Some (0::nat))))))) =
   (if p1 \<or> p2 \<or> p3 \<or> p4 \<or> p5 then None else Some (w1 + w2 + w3 + w4 + w5))"
  by simp

lemma match_eq:
  "match a b = (if differ_without_wildcard a b then None
                else Some (- int (wildcard_differences a b)))"
  unfolding match_def part_step_eq part_steps_chain differ_without_wildcard_def
    wildcard_differences_def
  by simp

text \<open>
  C10. A label matches itself with score 0, also when it has wildcard parts: parts that are
  equal on both sides, wildcards included, are not counted.  For any two labels,
  \<open>match\<close> returns \<open>None\<close> when some part differs with no wildcard on either
  side, and otherwise 0 minus the number of parts that differ and have the wildcard on one
  side.
\<close>

theorem match_reflexive_score:
  "match a a = Some 0 \<and>
   wildcard_differences a a = 0 \<and>
   (\<forall>b. match a b = (if differ_without_wildcard a b then None
                      else Some (- int (wildcard_differences a b))))"
  using match_eq by (simp add: match_def wildcard_differences_def wildcard_difference_def)

theorem match_reflexive_score_witness:
  "match checkout_any checkout_any = Some 0 \<and>
   match checkout_any checkout_a = Some (- 1) \<and>
   wildcard_differences checkout_any checkout_a = 1 \<and>
   match checkout_a package_a = None \<and>
   differ_without_wildcard checkout_a package_a"
proof -
  have w: "wildcard_differences checkout_any checkout_a = 1"
    by (simp add: wildcard_differences_def wildcard_difference_def checkout_any_def
        checkout_a_def)
  have n: "\<not> differ_without_wildcard checkout_any checkout_a"
    by (simp add: differ_without_wildcard_def plain_difference_def checkout_any_def
        checkout_a_def)
  have d: "differ_without_wildcard checkout_a package_a"
    by (simp add: differ_without_wildcard_def plain_difference_def package_a_def
        checkout_a_def)
  note r = match_reflexive_score [of checkout_any]
  note q = match_reflexive_score [of checkout_a]
  from r have 1: "match checkout_any checkout_any = Some 0" by (rule conjunct1)
  from r have "match checkout_any checkout_a =
      (if differ_without_wildcard checkout_any checkout_a then None
       else Some (- int (wildcard_differences checkout_any checkout_a)))" by blast
  with w n have 2: "match checkout_any checkout_a = Some (- 1)" by simp
  from q have "match checkout_a package_a =
      (if differ_without_wildcard checkout_a package_a then None
       else Some (- int (wildcard_differences checkout_a package_a)))" by blast
  with d have 3: "match checkout_a package_a = None" by simp
  from 1 2 w 3 d show ?thesis by (intro conjI)
qed

text \<open>
  C6. Two labels are equal exactly when their tuples are; the comparison is the
  lexicographic comparison of the tuples; labels with equal tuples have equal hashes;
  and none of the three depends on the flags.
\<close>

theorem equality_ignores_flags:
  "(label_eq a b \<longleftrightarrow> as_tuple a = as_tuple b) \<and>
   (label_cmp a b = - 1 \<longleftrightarrow> as_tuple a < as_tuple b) \<and>
   (label_cmp a b = 1 \<longleftrightarrow> as_tuple a > as_tuple b) \<and>
   (as_tuple a = as_tuple b \<longrightarrow> label_hash h a = label_hash h b) \<and>
   label_cmp (a\<lparr>transient := t, system := s\<rparr>) b = label_cmp a b \<and>
   label_cmp a (b\<lparr>transient := t, system := s\<rparr>) = label_cmp a b \<and>
   label_hash h (a\<lparr>transient := t, system := s\<rparr>) = label_hash h a"
  by (auto simp: label_eq_iff label_cmp_def Let_def label_hash_def as_tuple_def)

theorem equality_ignores_flags_witness:
  "as_tuple \<lparr>type = ''package'', domain = None, name = ''a'', role = None, tag = ''built'',
          transient = Some True, system = Some False\<rparr> =
   as_tuple \<lparr>type = ''package'', domain = None, name = ''a'', role = None, tag = ''built'',
          transient = Some False, system = Some True\<rparr> \<and>
   label_hash (\<lambda>t. int (length (fst t)))
      \<lparr>type = ''package'', domain = None, name = ''a'', role = None, tag = ''built'',
          transient = Some True, system = Some False\<rparr> =
   label_hash (\<lambda>t. int (length (fst t)))
      \<lparr>type = ''package'', domain = None, name = ''a'', role = None, tag = ''built'',
          transient = Some False, system = Some True\<rparr>"
proof -
  have e: "as_tuple \<lparr>type = ''package'', domain = None, name = ''a'', role = None,
          tag = ''built'', transient = Some True, system = Some False\<rparr> =
   as_tuple \<lparr>type = ''package'', domain = None, name = ''a'', role = None, tag = ''built'',
          transient = Some False, system = Some True\<rparr>"
    by (simp add: as_tuple_def)
  from equality_ignores_flags e show ?thesis by blast
qed

text \<open>
  C5 (evaluation at the failing input). \<open>re_tag\<close> called with the new tag alone keeps
  type, domain, name and role and sets the tag, but it overwrites both flags with the
  defaults of its keyword arguments: a transient system label comes back with both flags
  \<open>None\<close>.
\<close>

theorem re_tag_drops_flags:
  "re_tag \<lparr>type = ''package'', domain = None, name = ''busybox'', role = Some ''rootfs'',
           tag = ''built'', transient = Some True, system = Some True\<rparr>
          ''installed'' None None
   = \<lparr>type = ''package'', domain = None, name = ''busybox'', role = Some ''rootfs'',
      tag = ''installed'', transient = None, system = None\<rparr>"
  by (simp add: re_tag_def copy_def)

subsection \<open>Parsing and printing\<close>

lemma lit_split: "lit c s = Some r \<Longrightarrow> s = c # r"
  by (auto simp: lit_def split: list.splits if_splits)

lemma label_part_split: "label_part s = Some (p, r) \<Longrightarrow> s = p @ r \<and> p \<noteq> []"
  by (auto simp: label_part_def split: list.splits if_splits)

lemma label_part_ok: "label_part s = Some (p, r) \<Longrightarrow> check_value p"
proof -
  assume a: "label_part s = Some (p, r)"
  show ?thesis
  proof (cases "takeWhile is_label_char s = []")
    case True
    with a have "p = ''*''" by (auto simp: label_part_def split: list.splits if_splits)
    then show ?thesis by (simp add: check_value_def label_part_def is_label_char_def is_alnum_def)
  next
    case False
    with a have p: "p = takeWhile is_label_char s" by (auto simp: label_part_def)
    have all: "\<forall>x\<in>set p. is_label_char x" unfolding p by (auto dest: set_takeWhileD)
    then have tw: "takeWhile is_label_char p = p" by (simp add: takeWhile_eq_all_conv)
    from all have dw: "dropWhile is_label_char p = []" by simp
    from False p have ne: "p \<noteq> []" by simp
    show ?thesis by (simp add: check_value_def label_part_def tw dw ne)
  qed
qed

lemma domain_group_split:
  "domain_group s = (d, r) \<Longrightarrow>
     (d = None \<and> r = s) \<or> (\<exists>w. d = Some w \<and> w \<noteq> [] \<and> check_value w \<and> s = ''('' @ w @ '')'' @ r)"
  by (auto simp: domain_group_def split: option.splits prod.splits
      dest!: lit_split dest: label_part_split label_part_ok)

lemma role_group_split:
  "role_group s = (ro, r) \<Longrightarrow>
     (ro = None \<and> r = s) \<or> (ro = None \<and> s = ''{}'' @ r) \<or>
     (\<exists>w. ro = Some w \<and> w \<noteq> [] \<and> check_value w \<and> s = ''{'' @ w @ ''}'' @ r)"
  by (auto simp: role_group_def split: option.splits prod.splits
      dest!: lit_split dest: label_part_split label_part_ok)

lemma flags_group_split:
  "flags_group s = (f, r) \<Longrightarrow>
     (f = None \<and> r = s) \<or> (\<exists>w. f = Some w \<and> w \<noteq> [] \<and> s = ''['' @ w @ '']'' @ r)"
proof -
  assume a: "flags_group s = (f, r)"
  show ?thesis
  proof (cases "f")
    case None
    with a show ?thesis
      by (auto simp: flags_group_def split: option.splits if_splits)
  next
    case (Some w)
    with a obtain s1 where s1: "lit CHR ''['' s = Some s1" and ne: "takeWhile is_alnum s1 \<noteq> []"
      and r: "lit CHR '']'' (dropWhile is_alnum s1) = Some r" and w: "w = takeWhile is_alnum s1"
      by (auto simp: flags_group_def split: option.splits if_splits)
    from lit_split [OF s1] have e1: "s = CHR ''['' # s1" .
    from lit_split [OF r] have "dropWhile is_alnum s1 = CHR '']'' # r" .
    then have e2: "s1 = w @ CHR '']'' # r" unfolding w by (metis takeWhile_dropWhile_id)
    from ne w have e3: "w \<noteq> []" by simp
    have "s = ''['' @ w @ '']'' @ r" unfolding e1 by (subst e2) simp
    with Some e3 show ?thesis by blast
  qed
qed

lemma has_empty_group_braces: "has_empty_group (xs @ ''{}'' @ ys)"
  by (induction xs rule: has_empty_group.induct) auto

lemma Label_Inr:
  "Label ty nm rl tg tr sy dm = Inr l \<Longrightarrow>
   l = \<lparr>type = ty, domain = dm, name = nm, role = rl, tag = tg,
        transient = Some tr, system = Some sy\<rparr>"
  by (simp add: Label_def split: if_splits)

text \<open>
  C3. When a string parses to a label, the flags group the expression captured is absent
  or one of \<open>T\<close>, \<open>S\<close>, \<open>TS\<close>, and the string holds no empty pair of braces or
  parentheses, printing the label gives the string back.
\<close>

theorem parse_print_roundtrip:
  assumes re: "label_string_re s = Some m"
    and fs: "from_string s = Inr l"
    and nf: "normalized_flags (m_flags m)"
    and ne: "\<not> has_empty_group s"
  shows "label_str l = s"
proof -
  from re obtain ty s1 s2 dm s3 nm s4 rl s5 s6 tg s7 fl s8 where
    p1: "label_part s = Some (ty, s1)" and p2: "lit CHR '':'' s1 = Some s2"
    and p3: "domain_group s2 = (dm, s3)" and p4: "label_part s3 = Some (nm, s4)"
    and p5: "role_group s4 = (rl, s5)" and p6: "lit CHR ''/'' s5 = Some s6"
    and p7: "label_part s6 = Some (tg, s7)" and p8: "flags_group s7 = (fl, s8)"
    and m: "m = \<lparr>m_type = ty, m_domain = dm, m_name = nm, m_role = rl, m_tag = tg,
              m_flags = fl, m_rest = s8\<rparr>"
    by (auto simp: label_string_re_def split: option.splits prod.splits)
  from fs re m have s8: "s8 = []"
    by (auto simp: from_string_def split: if_splits)
  from fs re m s8 have l: "l = \<lparr>type = ty, domain = dm, name = nm, role = rl, tag = tg,
        transient = Some (case fl of None \<Rightarrow> False | Some f \<Rightarrow> f \<noteq> [] \<and> CHR ''T'' \<in> set f),
        system = Some (case fl of None \<Rightarrow> False | Some f \<Rightarrow> f \<noteq> [] \<and> CHR ''S'' \<in> set f)\<rparr>"
    by (auto simp: from_string_def Let_def dest: Label_Inr)
  have e1: "s = ty @ '':'' @ s2"
    using label_part_split [OF p1] lit_split [OF p2] by simp
  have e4: "s3 = nm @ s4" using label_part_split [OF p4] by simp
  have e6: "s5 = ''/'' @ tg @ s7"
    using label_part_split [OF p7] lit_split [OF p6] by simp
  define dstr where "dstr = (case dm of None \<Rightarrow> [] | Some d \<Rightarrow> if d \<noteq> [] then ''('' @ d @ '')'' else [])"
  have e3: "s2 = dstr @ s3"
    using domain_group_split [OF p3] by (auto simp: dstr_def)
  define fstr where "fstr = (case fl of None \<Rightarrow> [] | Some f \<Rightarrow> ''['' @ f @ '']'')"
  have e8: "s7 = fstr"
    using flags_group_split [OF p8] s8 by (auto simp: fstr_def)
  have nob: "s4 \<noteq> ''{}'' @ s5"
  proof
    assume "s4 = ''{}'' @ s5"
    then have "s = (ty @ '':'' @ dstr @ nm) @ ''{}'' @ s5"
      by (simp add: e1 e3 e4)
    then have "has_empty_group s" by (simp only: has_empty_group_braces)
    with ne show False by simp
  qed
  define rstr where "rstr = (case rl of None \<Rightarrow> [] | Some r \<Rightarrow> if r \<noteq> [] then ''{'' @ r @ ''}'' else [])"
  have e5: "s4 = rstr @ s5"
    using role_group_split [OF p5] nob by (auto simp: rstr_def)
  have s: "s = ty @ '':'' @ dstr @ nm @ rstr @ ''/'' @ tg @ fstr"
    by (simp add: e1 e3 e4 e5 e6 e8)
  from nf m have "fl = None \<or> fl = Some ''T'' \<or> fl = Some ''S'' \<or> fl = Some ''TS''"
    by (simp add: normalized_flags_def)
  then show ?thesis
    unfolding s l
    by (elim disjE) (auto simp: label_str_def truthy_def dstr_def rstr_def fstr_def Let_def split: option.splits)
qed

theorem parse_print_roundtrip_witness:
  "label_string_re ''package:(arm.hello)busybox{firmware}/installed[TS]'' =
     Some \<lparr>m_type = ''package'', m_domain = Some ''arm.hello'', m_name = ''busybox'',
           m_role = Some ''firmware'', m_tag = ''installed'', m_flags = Some ''TS'',
           m_rest = []\<rparr> \<and>
   from_string ''package:(arm.hello)busybox{firmware}/installed[TS]'' =
     Inr \<lparr>type = ''package'', domain = Some ''arm.hello'', name = ''busybox'',
          role = Some ''firmware'', tag = ''installed'', transient = Some True,
          system = Some True\<rparr> \<and>
   normalized_flags (Some ''TS'') \<and>
   \<not> has_empty_group ''package:(arm.hello)busybox{firmware}/installed[TS]'' \<and>
   label_str \<lparr>type = ''package'', domain = Some ''arm.hello'', name = ''busybox'',
          role = Some ''firmware'', tag = ''installed'', transient = Some True,
          system = Some True\<rparr> = ''package:(arm.hello)busybox{firmware}/installed[TS]''"
proof -
  have a: "label_string_re ''package:(arm.hello)busybox{firmware}/installed[TS]'' =
     Some \<lparr>m_type = ''package'', m_domain = Some ''arm.hello'', m_name = ''busybox'',
           m_role = Some ''firmware'', m_tag = ''installed'', m_flags = Some ''TS'',
           m_rest = []\<rparr>"
    by code_simp
  have b: "from_string ''package:(arm.hello)busybox{firmware}/installed[TS]'' =
     Inr \<lparr>type = ''package'', domain = Some ''arm.hello'', name = ''busybox'',
          role = Some ''firmware'', tag = ''installed'', transient = Some True,
          system = Some True\<rparr>"
    by code_simp
  have c: "normalized_flags (m_flags \<lparr>m_type = ''package'', m_domain = Some ''arm.hello'', m_name = ''busybox'',
           m_role = Some ''firmware'', m_tag = ''installed'', m_flags = Some ''TS'',
           m_rest = []\<rparr>)"
    by (simp add: normalized_flags_def)
  have d: "\<not> has_empty_group ''package:(arm.hello)busybox{firmware}/installed[TS]''"
    by simp
  from parse_print_roundtrip [OF a b c d] a b c d show ?thesis by simp
qed

text \<open>
  C4 (evaluation at the failing input). \<open>package:busybox/installed\<close> parses, and the
  form with an empty role part parses to the same label; but the flags group of the
  expression needs at least one character, so with an empty pair of brackets the match
  stops in front of them and \<open>from_string\<close> raises \<open>Failure\<close>.
\<close>

theorem degenerate_form_rejected:
  "from_string ''package:busybox/installed'' =
     Inr \<lparr>type = ''package'', domain = None, name = ''busybox'', role = None,
          tag = ''installed'', transient = Some False, system = Some False\<rparr> \<and>
   from_string ''package:busybox{}/installed'' = from_string ''package:busybox/installed'' \<and>
   from_string ''package:busybox{}/installed[]'' = Inl Failure \<and>
   from_string ''package:busybox/installed[]'' = Inl Failure"
  by code_simp



section \<open>Properties of the solver\<close>

subsection \<open>Sets of labels and their keys\<close>

lemma image_filter_notin: "f ` {x \<in> A. f x \<notin> f ` B} = f ` A - f ` B"
  by auto

lemma distinct_map_snoc:
  "distinct (map f s) \<Longrightarrow> f x \<notin> f ` set s \<Longrightarrow> distinct (map f (s @ [x]))"
  by simp

lemma label_in_iff: "label_in x s \<longleftrightarrow> as_tuple x \<in> label_keys s"
  unfolding label_in_def label_eq_iff label_keys_def set_map by blast

lemma keys_Nil [simp]: "label_keys [] = {}"
  by (simp add: label_keys_def)

lemma keys_Cons [simp]: "label_keys (x # s) = insert (as_tuple x) (label_keys s)"
  by (simp add: label_keys_def)

lemma keys_append [simp]: "label_keys (s @ t) = label_keys s \<union> label_keys t"
  by (simp add: label_keys_def)

lemma keys_set_add [simp]: "label_keys (set_add x s) = insert (as_tuple x) (label_keys s)"
proof (cases "label_in x s")
  case True
  then have "as_tuple x \<in> label_keys s" by (simp only: label_in_iff)
  then have "insert (as_tuple x) (label_keys s) = label_keys s" by (rule insert_absorb)
  with True show ?thesis by (simp add: set_add_def)
next
  case False
  then show ?thesis by (simp add: set_add_def)
qed

lemma keys_set_minus [simp]: "label_keys (set_minus s t) = label_keys s - label_keys t"
proof -
  have "set_minus s t = filter (\<lambda>x. as_tuple x \<notin> label_keys t) s"
    by (simp add: set_minus_def label_in_iff)
  then show ?thesis unfolding label_keys_def set_map by (simp only: set_filter image_filter_notin)
qed

lemma keys_eq_set: "set s = set t \<Longrightarrow> label_keys s = label_keys t"
  by (simp add: label_keys_def)

lemma finite_keys [simp]: "finite (label_keys s)"
  by (simp add: label_keys_def)

lemma key_distinct_set_add:
  "distinct (map as_tuple s) \<Longrightarrow> distinct (map as_tuple (set_add x s))"
proof (cases "label_in x s")
  case True
  assume "distinct (map as_tuple s)"
  with True show ?thesis by (simp add: set_add_def)
next
  case False
  assume d: "distinct (map as_tuple s)"
  from False have "as_tuple x \<notin> as_tuple ` set s"
    by (simp only: label_in_iff label_keys_def set_map not_False_eq_True)
  from distinct_map_snoc [OF d this] False show ?thesis by (simp only: set_add_def if_False)
qed

lemma key_distinct_set_minus:
  "distinct (map as_tuple s) \<Longrightarrow> distinct (map as_tuple (set_minus s t))"
  unfolding set_minus_def by (rule distinct_map_filter)

lemma match_cong:
  "as_tuple a = as_tuple a' \<Longrightarrow> as_tuple b = as_tuple b' \<Longrightarrow> match a b = match a' b'"
  by (simp add: match_def as_tuple_def)

lemma mset_iterate [simp]: "mset (iterate ord xs) = mset xs"
  by (simp add: iterate_def)

lemma set_iterate [simp]: "set (iterate ord xs) = set xs"
  using mset_iterate [of ord xs] by (rule mset_eq_setD)

lemma keys_iterate [simp]: "label_keys (iterate ord s) = label_keys s"
  by (simp add: label_keys_def)

lemma iterate_Nil_iff [simp]: "iterate ord xs = [] \<longleftrightarrow> xs = []"
proof -
  have "set (iterate ord xs) = {} \<longleftrightarrow> set xs = {}" by simp
  then show ?thesis by (simp only: set_empty)
qed

lemma key_distinct_iterate:
  "distinct (map as_tuple (iterate ord s)) \<longleftrightarrow> distinct (map as_tuple s)"
proof -
  have "mset (map as_tuple (iterate ord s)) = mset (map as_tuple s)" by simp
  then show ?thesis by (rule mset_eq_imp_distinct_iff)
qed


subsection \<open>One dependency, one target\<close>

lemma key_sets_skip:
  "k \<in> R \<or> k \<in> T \<or> k \<in> N \<Longrightarrow> N \<union> ({k} - R - T) = N \<and> ({k} - R - T \<subseteq> N)"
  by auto

lemma key_sets_add:
  "k \<notin> R \<Longrightarrow> k \<notin> T \<Longrightarrow> k \<notin> N \<Longrightarrow>
    N \<union> ({k} - R - T) = insert k N \<and> \<not> ({k} - R - T \<subseteq> N)"
  by auto

lemma key_sets_fold:
  "N1 = N \<union> ({k} - R - T) \<Longrightarrow> N2 = N1 \<union> (D - R - T) \<Longrightarrow>
     N2 = N \<union> (insert k D - R - T) \<and>
     ((dn \<or> \<not> ({k} - R - T \<subseteq> N) \<or> \<not> (D - R - T \<subseteq> N1)) \<longleftrightarrow> (dn \<or> \<not> (insert k D - R - T \<subseteq> N))) \<and>
     ((cn \<and> k \<in> R \<and> D \<subseteq> R) \<longleftrightarrow> (cn \<and> insert k D \<subseteq> R))"
  by auto

lemma dep_step_result:
  assumes "dep_step T d (st, can) = (st', can')"
  shows "dep_post {as_tuple d} (label_keys T) st can st' can'"
proof (cases "label_in d (rule_target_set st)")
  case True
  with assms have e: "st' = st" "can' = can" by (simp_all add: dep_step_def)
  from True have k: "as_tuple d \<in> label_keys (rule_target_set st)" by (simp only: label_in_iff)
  then have "as_tuple d \<in> label_keys (rule_target_set st) \<or> as_tuple d \<in> label_keys T \<or>
      as_tuple d \<in> label_keys (new_targets st)" by simp
  note s = key_sets_skip [OF this]
  show ?thesis unfolding dep_post_def e using s k by simp
next
  case False
  then have k: "as_tuple d \<notin> label_keys (rule_target_set st)" by (simp only: label_in_iff not_False_eq_True)
  show ?thesis
  proof (cases "\<not> label_in d (new_targets st) \<and> \<not> label_in d T")
    case True
    with False assms have e: "st' = st\<lparr>new_targets := set_add d (new_targets st), done_something := True\<rparr>"
      "can' = False" by (simp_all add: dep_step_def)
    from True have "as_tuple d \<notin> label_keys T" "as_tuple d \<notin> label_keys (new_targets st)"
      by (simp_all only: label_in_iff not_False_eq_True)
    note s = key_sets_add [OF k this]
    show ?thesis unfolding dep_post_def e using s k by (simp add: key_distinct_set_add)
  next
    case False
    with \<open>\<not> label_in d (rule_target_set st)\<close> assms have e: "st' = st" "can' = False"
      by (auto simp: dep_step_def)
    from False have "as_tuple d \<in> label_keys (rule_target_set st) \<or> as_tuple d \<in> label_keys T \<or>
      as_tuple d \<in> label_keys (new_targets st)"
      by (auto simp only: label_in_iff)
    note s = key_sets_skip [OF this]
    show ?thesis unfolding dep_post_def e using s k by simp
  qed
qed


lemma dep_post_refl: "dep_post {} T st can st can"
  by (simp add: dep_post_def)

lemma dep_post_trans:
  assumes a: "dep_post {k} T st can st1 can1" and b: "dep_post D T st1 can1 st' can'"
  shows "dep_post (insert k D) T st can st' can'"
proof -
  let ?R = "label_keys (rule_target_set st)"
  let ?N = "label_keys (new_targets st)"
  from a have r1: "rule_target_set st1 = rule_target_set st" and l1: "rule_list st1 = rule_list st"
    and n1: "label_keys (new_targets st1) = ?N \<union> ({k} - ?R - T)"
    and c1: "can1 = (can \<and> {k} \<subseteq> ?R)"
    and d1: "done_something st1 = (done_something st \<or> \<not> ({k} - ?R - T \<subseteq> ?N))"
    and k1: "distinct (map as_tuple (new_targets st)) \<longrightarrow> distinct (map as_tuple (new_targets st1))"
    and e1: "{k} \<subseteq> ?R \<longrightarrow> st1 = st"
    by (simp_all add: dep_post_def)
  from b r1 have r2: "rule_target_set st' = rule_target_set st" and l2: "rule_list st' = rule_list st1"
    and n2: "label_keys (new_targets st') = label_keys (new_targets st1) \<union> (D - ?R - T)"
    and c2: "can' = (can1 \<and> D \<subseteq> ?R)"
    and d2: "done_something st' = (done_something st1 \<or> \<not> (D - ?R - T \<subseteq> label_keys (new_targets st1)))"
    and k2: "distinct (map as_tuple (new_targets st1)) \<longrightarrow> distinct (map as_tuple (new_targets st'))"
    and e2: "D \<subseteq> ?R \<longrightarrow> st' = st1"
    by (simp_all add: dep_post_def)
  note f = key_sets_fold [OF n1 n2, of "done_something st" can]
  have "label_keys (new_targets st') = ?N \<union> (insert k D - ?R - T)" using f by simp
  moreover have "can' = (can \<and> insert k D \<subseteq> ?R)" using f c1 c2 by simp
  moreover have "done_something st' = (done_something st \<or> \<not> (insert k D - ?R - T \<subseteq> ?N))"
    using f d1 d2 by simp
  moreover have "insert k D \<subseteq> ?R \<longrightarrow> st' = st" using e1 e2 by simp
  ultimately show ?thesis using r2 l1 l2 k1 k2 by (simp add: dep_post_def)
qed

lemma deps_loop_result:
  "fold (dep_step T) ds (st, can) = (st', can') \<Longrightarrow>
     dep_post (label_keys ds) (label_keys T) st can st' can'"
proof (induction ds arbitrary: st can)
  case Nil
  then show ?case by (simp add: dep_post_refl)
next
  case (Cons d ds)
  obtain st1 can1 where s1: "dep_step T d (st, can) = (st1, can1)" by (cases "dep_step T d (st, can)")
  with Cons.prems have f: "fold (dep_step T) ds (st1, can1) = (st', can')" by simp
  from dep_post_trans [OF dep_step_result [OF s1] Cons.IH [OF f]] show ?case by simp
qed



lemma rules_loop_concat:
  "fold (\<lambda>rule acc. fold f (deps rule) acc) rules acc = fold f (concat (map deps rules)) acc"
  by (induction rules arbitrary: acc) simp_all


lemma rules_for_target_useMatch:
  "rules_for_target rs t useTags True = rules_for_target rs t True True"
  by (simp add: rules_for_target_def)

lemma target_step_unfold:
  "target_step rord rs useTags T tgt st =
     (if rules_for_target rs tgt True True = [] then Inl (RuleListEmpty tgt)
      else
        (case fold (dep_step T) (concat (map deps (iterate rord (rules_for_target rs tgt True True))))
                (st, True) of
           (st1, can_build_target) \<Rightarrow>
             if can_build_target then
               Inr (st1\<lparr>rule_list := rule_list st1 @
                          [last (iterate rord (rules_for_target rs tgt True True))],
                        rule_target_set := set_add tgt (rule_target_set st1),
                        done_something := True\<rparr>)
             else Inr (st1\<lparr>new_targets := set_add tgt (new_targets st1)\<rparr>)))"
proof -
  have r: "rules_for_target rs tgt useTags True = rules_for_target rs tgt True True"
    by (rule rules_for_target_useMatch)
  show ?thesis unfolding target_step_def r Let_def rules_loop_concat by simp
qed


lemma needs_iterate:
  "label_keys (concat (map deps (iterate rord (rules_for_target rs t True True)))) = needs rs t"
  unfolding needs_def by (rule keys_eq_set) simp


lemma target_step_empty:
  "rules_for_target rs tgt True True = [] \<Longrightarrow>
     target_step rord rs useTags T tgt st = Inl (RuleListEmpty tgt)"
  by (simp add: target_step_unfold)


lemma target_step_Inl:
  "target_step rord rs useTags T tgt st = Inl e \<Longrightarrow>
     e = RuleListEmpty tgt \<and> rules_for_target rs tgt True True = []"
  by (simp add: target_step_unfold split: if_splits prod.splits)


lemma target_step_ready:
  assumes ne: "rules_for_target rs tgt True True \<noteq> []"
    and sat: "needs rs tgt \<subseteq> label_keys (rule_target_set st)"
  shows "target_step rord rs useTags T tgt st =
     Inr (st\<lparr>rule_list := rule_list st @ [last (iterate rord (rules_for_target rs tgt True True))],
             rule_target_set := set_add tgt (rule_target_set st),
             done_something := True\<rparr>)"
proof -
  let ?rules = "rules_for_target rs tgt True True"
  obtain st1 can1 where f: "fold (dep_step T) (concat (map deps (iterate rord ?rules))) (st, True) = (st1, can1)"
    by (cases "fold (dep_step T) (concat (map deps (iterate rord ?rules))) (st, True)")
  from deps_loop_result [OF f] have p: "dep_post (needs rs tgt) (label_keys T) st True st1 can1"
    by (simp only: needs_iterate)
  with sat have "st1 = st" "can1" by (simp_all add: dep_post_def)
  with f ne show ?thesis
    by (simp add: target_step_unfold)
qed


lemma target_step_unready:
  assumes ne: "rules_for_target rs tgt True True \<noteq> []"
    and unsat: "\<not> needs rs tgt \<subseteq> label_keys (rule_target_set st)"
  shows "\<exists>st1. target_step rord rs useTags T tgt st =
        Inr (st1\<lparr>new_targets := set_add tgt (new_targets st1)\<rparr>) \<and>
      dep_post (needs rs tgt) (label_keys T) st True st1 False"
proof -
  let ?rules = "rules_for_target rs tgt True True"
  obtain st1 can1 where f: "fold (dep_step T) (concat (map deps (iterate rord ?rules))) (st, True) = (st1, can1)"
    by (cases "fold (dep_step T) (concat (map deps (iterate rord ?rules))) (st, True)")
  from deps_loop_result [OF f] have p: "dep_post (needs rs tgt) (label_keys T) st True st1 can1"
    by (simp only: needs_iterate)
  with unsat have c: "\<not> can1" by (simp add: dep_post_def)
  with f ne have "target_step rord rs useTags T tgt st =
        Inr (st1\<lparr>new_targets := set_add tgt (new_targets st1)\<rparr>)"
    by (simp add: target_step_unfold)
  with p c show ?thesis by auto
qed

lemma last_iterate_in: "xs \<noteq> [] \<Longrightarrow> last (iterate ord xs) \<in> set xs"
proof -
  assume "xs \<noteq> []"
  then have "iterate ord xs \<noteq> []" by simp
  then have "last (iterate ord xs) \<in> set (iterate ord xs)" by (rule last_in_set)
  then show ?thesis by simp
qed

lemma target_step_Inr:
  assumes "target_step rord rs useTags T tgt st = Inr st'"
  shows "step_post rs T tgt st st'"
proof -
  let ?rules = "rules_for_target rs tgt True True"
  from assms have ne: "?rules \<noteq> []"
    using target_step_empty [of rs tgt rord useTags T st] by auto
  show ?thesis
  proof (cases "needs rs tgt \<subseteq> label_keys (rule_target_set st)")
    case True
    from target_step_ready [OF ne True, of rord useTags T] assms
    have "st' = st\<lparr>rule_list := rule_list st @ [last (iterate rord ?rules)],
             rule_target_set := set_add tgt (rule_target_set st),
             done_something := True\<rparr>" by simp
    with last_iterate_in [OF ne, of rord] True ne show ?thesis
      unfolding step_post_def by (simp only: if_True) blast
  next
    case False
    from target_step_unready [OF ne False, of rord useTags T] assms obtain st1 where
      e: "st' = st1\<lparr>new_targets := set_add tgt (new_targets st1)\<rparr>"
      and p: "dep_post (needs rs tgt) (label_keys T) st True st1 False" by auto
    from p have "rule_list st1 = rule_list st" "rule_target_set st1 = rule_target_set st"
      "label_keys (new_targets st1) = label_keys (new_targets st) \<union>
         (needs rs tgt - label_keys (rule_target_set st) - label_keys T)"
      "done_something st1 = (done_something st \<or>
         \<not> (needs rs tgt - label_keys (rule_target_set st) - label_keys T \<subseteq> label_keys (new_targets st)))"
      "distinct (map as_tuple (new_targets st)) \<longrightarrow> distinct (map as_tuple (new_targets st1))"
      by (simp_all add: dep_post_def)
    with False ne show ?thesis
      unfolding step_post_def e by (simp add: key_distinct_set_add)
  qed
qed

lemma for_targets_rule:
  assumes run: "for_targets rord rs useTags T ts st = Inr st'"
    and init: "I ts st"
    and step: "\<And>t rest s s'. I (t # rest) s \<Longrightarrow> step_post rs T t s s' \<Longrightarrow> I rest s'"
  shows "I [] st'"
  using run init
proof (induction ts arbitrary: st)
  case Nil
  then show ?case by simp
next
  case (Cons t ts)
  from Cons.prems(1) obtain s1 where s1: "target_step rord rs useTags T t st = Inr s1"
    and r: "for_targets rord rs useTags T ts s1 = Inr st'"
    by (auto split: sum.splits)
  from step [OF Cons.prems(2) target_step_Inr [OF s1]] have "I ts s1" .
  from Cons.IH [OF r this] show ?case .
qed

lemma for_targets_Inl:
  "for_targets rord rs useTags T ts st = Inl e \<Longrightarrow>
     \<exists>t\<in>set ts. e = RuleListEmpty t \<and> rules_for_target rs t True True = []"
proof (induction ts arbitrary: st)
  case Nil
  then show ?case by simp
next
  case (Cons t ts)
  show ?case
  proof (cases "target_step rord rs useTags T t st")
    case (Inl e')
    with Cons.prems have "e' = e" by simp
    with target_step_Inl [OF Inl] show ?thesis by simp
  next
    case (Inr s1)
    with Cons.prems have "for_targets rord rs useTags T ts s1 = Inl e" by simp
    from Cons.IH [OF this] show ?thesis by auto
  qed
qed

lemma rules_for_target_subset:
  "set (rules_for_target rs t True True) \<subseteq> snd ` set rs"
proof -
  have "set (fold (\<lambda>(k, v) rules. if match t k \<noteq> None then rule_set_add v rules else rules) rs acc)
        \<subseteq> set acc \<union> snd ` set rs" for acc
  proof (induction rs arbitrary: acc)
    case Nil
    then show ?case by simp
  next
    case (Cons kv rs)
    obtain k v where kv: "kv = (k, v)" by (cases kv)
    have "set (rule_set_add v acc) \<subseteq> insert v (set acc)" by (auto simp: rule_set_add_def)
    with Cons.IH [of "rule_set_add v acc"] Cons.IH [of acc] show ?case
      unfolding kv by (simp split: if_splits) blast
  qed
  from this [of "[]"] show ?thesis by (simp add: rules_for_target_def)
qed

lemma keys_concat: "label_keys (concat xss) = (\<Union>xs\<in>set xss. label_keys xs)"
  by (induction xss) simp_all

lemma needs_subset_dep_keys: "needs rs t \<subseteq> dep_keys rs"
proof
  fix k assume "k \<in> needs rs t"
  then obtain r where r: "r \<in> set (rules_for_target rs t True True)" and k: "k \<in> label_keys (deps r)"
    unfolding needs_def keys_concat by auto
  from r rules_for_target_subset obtain kk where "(kk, r) \<in> set rs" by fastforce
  with k show "k \<in> dep_keys rs" unfolding dep_keys_def by blast
qed

lemma as_tuple_label_of [simp]: "as_tuple (label_of k) = k"
  by (cases k) (simp add: label_of_def as_tuple_def)

lemma rules_for_target_cong:
  assumes "as_tuple t = as_tuple t'"
  shows "rules_for_target rs t True True = rules_for_target rs t' True True"
proof -
  have "match t k = match t' k" for k using assms by (rule match_cong) simp
  then show ?thesis by (simp add: rules_for_target_def)
qed

lemma needs_cong: "as_tuple t = as_tuple t' \<Longrightarrow> needs rs t = needs rs t'"
  unfolding needs_def by (simp only: rules_for_target_cong [of t t'])

lemma key_needs_eq: "key_needs rs (as_tuple t) = needs rs t"
  unfolding key_needs_def by (rule needs_cong) simp

lemma frameP_ready:
  "frameP Rz R Nz N TSz (insert k REST) DK TT dnz dn \<Longrightarrow> k \<notin> REST \<Longrightarrow>
   frameP Rz (insert k R) Nz N TSz REST DK TT dnz True"
  unfolding frameP_def by auto

lemma frameP_unready:
  "frameP Rz R Nz N TSz (insert k REST) DK TT dnz dn \<Longrightarrow> k \<notin> REST \<Longrightarrow> A \<subseteq> DK \<Longrightarrow> TSz \<subseteq> TT \<Longrightarrow>
   frameP Rz R Nz (insert k (N \<union> (A - R - TT))) TSz REST DK TT dnz (dn \<or> \<not> (A - R - TT \<subseteq> N))"
  unfolding frameP_def by auto

lemma frameP_init: "TSz \<inter> Rz = {} \<Longrightarrow> frameP Rz Rz Nz Nz TSz TSz DK TT dnz dnz"
  unfolding frameP_def by auto

lemma pass_frame_step:
  assumes T: "label_keys ts0 \<subseteq> label_keys T"
    and I: "pass_frame rs T st0 ts0 (t # rest) s" and sp: "step_post rs T t s s'"
  shows "pass_frame rs T st0 ts0 rest s'"
proof -
  from I have fr: "frameP (label_keys (rule_target_set st0)) (label_keys (rule_target_set s))
        (label_keys (new_targets st0)) (label_keys (new_targets s))
        (label_keys ts0) (insert (as_tuple t) (label_keys rest))
        (\<Union>k\<in>label_keys ts0. key_needs rs k) (label_keys T)
        (done_something st0) (done_something s)"
    and di: "distinct (map as_tuple (t # rest))"
    and dnw: "distinct (map as_tuple (new_targets s))"
    by (simp_all add: pass_frame_def)
  from di have k: "as_tuple t \<notin> label_keys rest" and dr: "distinct (map as_tuple rest)"
    by (simp_all add: label_keys_def)
  from fr have "as_tuple t \<in> label_keys ts0" by (simp add: frameP_def)
  then have nd: "needs rs t \<subseteq> (\<Union>k\<in>label_keys ts0. key_needs rs k)"
    using key_needs_eq [of rs t] by blast
  show ?thesis
  proof (cases "needs rs t \<subseteq> label_keys (rule_target_set s)")
    case True
    with sp obtain r where s': "s' = s\<lparr>rule_list := rule_list s @ [r],
                        rule_target_set := set_add t (rule_target_set s),
                        done_something := True\<rparr>"
      by (auto simp: step_post_def)
    from frameP_ready [OF fr k] dr dnw show ?thesis unfolding pass_frame_def s' by simp
  next
    case False
    with sp have u: "rule_list s' = rule_list s" "rule_target_set s' = rule_target_set s"
      "label_keys (new_targets s') = insert (as_tuple t) (label_keys (new_targets s) \<union>
          (needs rs t - label_keys (rule_target_set s) - label_keys T))"
      "done_something s' = (done_something s \<or>
          \<not> (needs rs t - label_keys (rule_target_set s) - label_keys T \<subseteq> label_keys (new_targets s)))"
      "distinct (map as_tuple (new_targets s'))"
      using dnw by (simp_all add: step_post_def)
    from frameP_unready [OF fr k nd T] dr u(5) show ?thesis
      unfolding pass_frame_def u(2,3,4) by simp
  qed
qed

lemma pass_frame_init:
  "distinct (map as_tuple ts0) \<Longrightarrow> label_keys ts0 \<inter> label_keys (rule_target_set st0) = {} \<Longrightarrow>
   distinct (map as_tuple (new_targets st0)) \<Longrightarrow> pass_frame rs T st0 ts0 ts0 st0"
  by (simp add: pass_frame_def frameP_init)

lemma for_targets_frame:
  assumes run: "for_targets rord rs useTags T ts0 st0 = Inr st'"
    and T: "label_keys ts0 \<subseteq> label_keys T"
    and d: "distinct (map as_tuple ts0)"
    and j: "label_keys ts0 \<inter> label_keys (rule_target_set st0) = {}"
    and n: "distinct (map as_tuple (new_targets st0))"
  shows "pass_frame rs T st0 ts0 [] st'"
  using run pass_frame_init [OF d j n]
proof (rule for_targets_rule)
  fix t rest s s'
  assume "pass_frame rs T st0 ts0 (t # rest) s" "step_post rs T t s s'"
  with T show "pass_frame rs T st0 ts0 rest s'" by (rule pass_frame_step)
qed

lemma set_add_snoc: "as_tuple t \<notin> label_keys s \<Longrightarrow> set_add t s = s @ [t]"
  by (simp add: set_add_def label_in_iff)

lemma solved_snoc:
  assumes s: "solved rs rl rts" and k: "as_tuple t \<notin> label_keys rts"
    and r: "r \<in> set (rules_for_target rs t True True)"
    and n: "needs rs t \<subseteq> label_keys rts"
  shows "solved rs (rl @ [r]) (set_add t rts)"
proof -
  from s have len: "length rl = length rts" and d: "distinct (map as_tuple rts)"
    and a: "\<And>i. i < length rts \<Longrightarrow> rl ! i \<in> set (rules_for_target rs (rts ! i) True True) \<and>
                       needs rs (rts ! i) \<subseteq> label_keys (take i rts)"
    by (simp_all add: solved_def)
  have d': "distinct (map as_tuple (rts @ [t]))" using d k by (simp add: label_keys_def)
  have "(rl @ [r]) ! i \<in> set (rules_for_target rs ((rts @ [t]) ! i) True True) \<and>
        needs rs ((rts @ [t]) ! i) \<subseteq> label_keys (take i (rts @ [t]))"
    if "i < length (rts @ [t])" for i
  proof (cases "i < length rts")
    case True
    with a [OF True] len show ?thesis by (simp add: nth_append)
  next
    case False
    with that have "i = length rts" by simp
    with r n len show ?thesis by (simp add: nth_append)
  qed
  with len d' show ?thesis unfolding set_add_snoc [OF k] solved_def by simp
qed

lemma pass_frame_disjoint:
  "pass_frame rs T st0 ts0 (t # rest) s \<Longrightarrow> as_tuple t \<notin> label_keys (rule_target_set s)"
  by (simp add: pass_frame_def frameP_def)

lemma pass_inv_step:
  assumes T: "label_keys ts0 \<subseteq> label_keys T"
    and I: "pass_inv rs T st0 ts0 (t # rest) s" and sp: "step_post rs T t s s'"
  shows "pass_inv rs T st0 ts0 rest s'"
proof -
  from I have fr: "pass_frame rs T st0 ts0 (t # rest) s"
    and so: "solved rs (rule_list s) (rule_target_set s)" by (simp_all add: pass_inv_def)
  note fr' = pass_frame_step [OF T fr sp]
  have "solved rs (rule_list s') (rule_target_set s')"
  proof (cases "needs rs t \<subseteq> label_keys (rule_target_set s)")
    case True
    with sp obtain r where r: "r \<in> set (rules_for_target rs t True True)"
      and s': "s' = s\<lparr>rule_list := rule_list s @ [r],
                        rule_target_set := set_add t (rule_target_set s),
                        done_something := True\<rparr>"
      by (auto simp: step_post_def)
    from solved_snoc [OF so pass_frame_disjoint [OF fr] r True] show ?thesis
      unfolding s' by simp
  next
    case False
    with sp have "rule_list s' = rule_list s" "rule_target_set s' = rule_target_set s"
      by (simp_all add: step_post_def)
    with so show ?thesis by simp
  qed
  with fr' show ?thesis by (simp add: pass_inv_def)
qed

lemma for_targets_inv:
  assumes run: "for_targets rord rs useTags T ts0 st0 = Inr st'"
    and T: "label_keys ts0 \<subseteq> label_keys T"
    and d: "distinct (map as_tuple ts0)"
    and j: "label_keys ts0 \<inter> label_keys (rule_target_set st0) = {}"
    and n: "distinct (map as_tuple (new_targets st0))"
    and so: "solved rs (rule_list st0) (rule_target_set st0)"
  shows "pass_inv rs T st0 ts0 [] st'"
proof -
  from pass_frame_init [OF d j n] so have i: "pass_inv rs T st0 ts0 ts0 st0"
    by (simp add: pass_inv_def)
  from run i show ?thesis
  proof (rule for_targets_rule)
    fix t rest s s'
    assume "pass_inv rs T st0 ts0 (t # rest) s" "step_post rs T t s s'"
    with T show "pass_inv rs T st0 ts0 rest s'" by (rule pass_inv_step)
  qed
qed

lemma stuckP_init: "stuckP nd TSz TSz Rz TT Nz Nz"
  unfolding stuckP_def by auto

lemma stuckP_step:
  "stuckP nd TSz (insert k0 REST) Rz TT Nz N \<Longrightarrow> \<not> nd k0 \<subseteq> Rz \<Longrightarrow> nd k0 - Rz - TT \<subseteq> N \<Longrightarrow>
   stuckP nd TSz REST Rz TT Nz (insert k0 (N \<union> (nd k0 - Rz - TT)))"
  unfolding stuckP_def by fast

lemma pass_stuck_step:
  assumes I: "pass_stuck rs T st0 ts0 (t # rest) s" and sp: "step_post rs T t s s'"
  shows "pass_stuck rs T st0 ts0 rest s'"
proof (cases "done_something s'")
  case True
  then show ?thesis by (simp add: pass_stuck_def)
next
  case nd: False
  show ?thesis
  proof (cases "needs rs t \<subseteq> label_keys (rule_target_set s)")
    case True
    with sp have "done_something s'" by (auto simp: step_post_def)
    with nd show ?thesis by simp
  next
    case False
    with sp have u: "rule_list s' = rule_list s" "rule_target_set s' = rule_target_set s"
      "label_keys (new_targets s') = insert (as_tuple t) (label_keys (new_targets s) \<union>
          (needs rs t - label_keys (rule_target_set s) - label_keys T))"
      "done_something s' = (done_something s \<or>
          \<not> (needs rs t - label_keys (rule_target_set s) - label_keys T \<subseteq> label_keys (new_targets s)))"
      by (simp_all add: step_post_def)
    from nd u(4) have nds: "\<not> done_something s"
      and sub: "needs rs t - label_keys (rule_target_set s) - label_keys T \<subseteq> label_keys (new_targets s)"
      by simp_all
    from I nds have e: "rule_list s = rule_list st0" "rule_target_set s = rule_target_set st0"
      and st: "stuckP (key_needs rs) (label_keys ts0) (insert (as_tuple t) (label_keys rest))
          (label_keys (rule_target_set st0)) (label_keys T) (label_keys (new_targets st0))
          (label_keys (new_targets s))"
      by (simp_all add: pass_stuck_def)
    have kn: "key_needs rs (as_tuple t) = needs rs t" by (rule key_needs_eq)
    from False have a: "\<not> key_needs rs (as_tuple t) \<subseteq> label_keys (rule_target_set st0)"
      unfolding kn e(2) .
    from sub have b: "key_needs rs (as_tuple t) - label_keys (rule_target_set st0) - label_keys T
        \<subseteq> label_keys (new_targets s)" unfolding kn e(2) .
    from stuckP_step [OF st a b] show ?thesis
      unfolding pass_stuck_def u(1,2,3) e kn by simp
  qed
qed

lemma for_targets_stuck:
  assumes run: "for_targets rord rs useTags T ts0 st0 = Inr st'"
  shows "pass_stuck rs T st0 ts0 [] st'"
proof -
  have i: "pass_stuck rs T st0 ts0 ts0 st0" by (simp add: pass_stuck_def stuckP_init)
  from run i show ?thesis
  proof (rule for_targets_rule)
    fix t rest s s'
    assume "pass_stuck rs T st0 ts0 (t # rest) s" "step_post rs T t s s'"
    then show "pass_stuck rs T st0 ts0 rest s'" by (rule pass_stuck_step)
  qed
qed

lemma pass_summary:
  assumes run: "pass lord rord rs useTags (set_minus targets rts) rl rts = Inr st"
    and d: "distinct (map as_tuple targets)" and so: "solved rs rl rts"
  shows "solved rs (rule_list st) (rule_target_set st)"
    and "distinct (map as_tuple (new_targets st))"
    and "frameP (label_keys rts) (label_keys (rule_target_set st)) {} (label_keys (new_targets st))
           (label_keys targets - label_keys rts) {}
           (\<Union>k\<in>label_keys targets - label_keys rts. key_needs rs k)
           (label_keys targets - label_keys rts) False (done_something st)"
    and "\<not> done_something st \<Longrightarrow> rule_list st = rl \<and> rule_target_set st = rts \<and>
           stuckP (key_needs rs) (label_keys targets - label_keys rts) {} (label_keys rts)
             (label_keys targets - label_keys rts) {} (label_keys (new_targets st))"
proof -
  let ?T = "set_minus targets rts"
  let ?st0 = "\<lparr>new_targets = [], rule_list = rl, rule_target_set = rts, done_something = False\<rparr>"
  from run have r: "for_targets rord rs useTags ?T (iterate lord ?T) ?st0 = Inr st"
    by (simp add: pass_def)
  have T: "label_keys (iterate lord ?T) \<subseteq> label_keys ?T" by simp
  have di: "distinct (map as_tuple (iterate lord ?T))"
    using d by (simp add: key_distinct_iterate key_distinct_set_minus)
  have j: "label_keys (iterate lord ?T) \<inter> label_keys (rule_target_set ?st0) = {}"
    by simp blast
  have n: "distinct (map as_tuple (new_targets ?st0))" by simp
  have s0: "solved rs (rule_list ?st0) (rule_target_set ?st0)" using so by simp
  from for_targets_inv [OF r T di j n s0]
  show "solved rs (rule_list st) (rule_target_set st)"
    and "distinct (map as_tuple (new_targets st))"
    and "frameP (label_keys rts) (label_keys (rule_target_set st)) {} (label_keys (new_targets st))
           (label_keys targets - label_keys rts) {}
           (\<Union>k\<in>label_keys targets - label_keys rts. key_needs rs k)
           (label_keys targets - label_keys rts) False (done_something st)"
    by (simp_all add: pass_inv_def pass_frame_def)
  from for_targets_stuck [OF r]
  show "\<not> done_something st \<Longrightarrow> rule_list st = rl \<and> rule_target_set st = rts \<and>
           stuckP (key_needs rs) (label_keys targets - label_keys rts) {} (label_keys rts)
             (label_keys targets - label_keys rts) {} (label_keys (new_targets st))"
    by (simp add: pass_stuck_def)
qed

lemma pass_Inl:
  assumes "pass lord rord rs useTags T rl rts = Inl e"
  shows "\<exists>t\<in>set T. e = RuleListEmpty t \<and> rules_for_target rs t True True = []"
  using for_targets_Inl [of rord rs useTags T "iterate lord T" _ e] assms
  by (simp add: pass_def)

lemma reachable_base: "S \<subseteq> reachable nd S"
  unfolding reachable_def by auto

lemma reachable_step: "k \<in> reachable nd S \<Longrightarrow> d \<in> nd k \<Longrightarrow> d \<in> reachable nd S"
proof -
  assume "k \<in> reachable nd S" and d: "d \<in> nd k"
  then obtain k0 where k0: "k0 \<in> S" and r: "(k, k0) \<in> {(d, k). d \<in> nd k}\<^sup>*"
    unfolding reachable_def by auto
  from d have dk: "(d, k) \<in> {(d, k). d \<in> nd k}" by simp
  from dk r have "(d, k0) \<in> {(d, k). d \<in> nd k}\<^sup>*" by (rule converse_rtrancl_into_rtrancl)
  with k0 show ?thesis unfolding reachable_def by auto
qed

lemma reachable_closed:
  assumes S: "S \<subseteq> C" and cl: "\<And>k d. k \<in> C \<Longrightarrow> d \<in> nd k \<Longrightarrow> d \<in> C"
  shows "reachable nd S \<subseteq> C"
proof
  fix d assume "d \<in> reachable nd S"
  then obtain k0 where k0: "k0 \<in> S" and r: "(d, k0) \<in> {(d, k). d \<in> nd k}\<^sup>*"
    unfolding reachable_def by auto
  from r show "d \<in> C"
  proof (induction rule: converse_rtrancl_induct)
    case base
    from k0 S show ?case by auto
  next
    case (step y z)
    then show ?case using cl by auto
  qed
qed

lemma reachable_trans:
  assumes "S' \<subseteq> reachable nd S"
  shows "reachable nd S' \<subseteq> reachable nd S"
proof (rule reachable_closed)
  show "S' \<subseteq> reachable nd S" by fact
next
  fix k d assume "k \<in> reachable nd S" "d \<in> nd k"
  then show "d \<in> reachable nd S" by (rule reachable_step)
qed

lemma frameP_D:
  assumes "frameP Rz R Nz N TSz REST DK TT dnz dn"
  shows "Rz \<subseteq> R" "R \<subseteq> Rz \<union> TSz" "Nz \<subseteq> N" "Nz \<union> TSz \<subseteq> N \<union> R \<union> REST"
    "N \<subseteq> Nz \<union> TSz \<union> (DK - Rz - TT)" "REST \<subseteq> TSz" "REST \<inter> R = {}"
    "dn \<Longrightarrow> \<not> dnz \<Longrightarrow> \<not> N \<subseteq> Nz \<union> TSz \<or> \<not> R \<subseteq> Rz"
  using assms unfolding frameP_def by (elim conjE, assumption | (elim conjE, blast))+

lemma frameP_grow:
  assumes "frameP Rz R {} N T1 {} DKd T1 False dn"
  shows "T1 \<union> Rz \<subseteq> N \<union> R"
  using frameP_D(1,4) [OF assms] by blast

lemma frame_reach_aux:
  "N \<subseteq> {} \<union> T1 \<union> (DK - Rz - T1) \<Longrightarrow> R \<subseteq> Rz \<union> T1 \<Longrightarrow> T1 \<union> Rz \<subseteq> C \<Longrightarrow> DK \<subseteq> C \<Longrightarrow>
   N \<union> R \<subseteq> C"
  by auto

lemma frameP_reach:
  assumes "frameP Rz R {} N T1 {} (\<Union>k\<in>T1. nd k) T1 False dn"
  shows "N \<union> R \<subseteq> reachable nd (T1 \<union> Rz)"
proof -
  have a: "T1 \<union> Rz \<subseteq> reachable nd (T1 \<union> Rz)" by (rule reachable_base)
  have b: "(\<Union>k\<in>T1. nd k) \<subseteq> reachable nd (T1 \<union> Rz)"
  proof (rule UN_least)
    fix k assume "k \<in> T1"
    with a have k: "k \<in> reachable nd (T1 \<union> Rz)" by blast
    show "nd k \<subseteq> reachable nd (T1 \<union> Rz)"
    proof
      fix d assume "d \<in> nd k"
      with k show "d \<in> reachable nd (T1 \<union> Rz)" by (rule reachable_step)
    qed
  qed
  from frameP_D(5) [OF assms] frameP_D(2) [OF assms] a b show ?thesis
    by (rule frame_reach_aux)
qed

lemma frameP_decrease:
  assumes fr: "frameP Rz R {} N (Tg - Rz) {} DKd (Tg - Rz) False True"
    and sub: "DKd \<subseteq> DK" and fin: "finite DK" "finite Tg"
  shows "((card (DK - (N \<union> R)), card (N - R)), (card (DK - (Tg \<union> Rz)), card (Tg - Rz)))
           \<in> less_than <*lex*> less_than"
proof -
  from frameP_D(1,2,4,5,8) [OF fr] have a: "Rz \<subseteq> R" "R \<subseteq> Rz \<union> (Tg - Rz)" "Tg - Rz \<subseteq> N \<union> R"
    "N \<subseteq> (Tg - Rz) \<union> (DKd - Rz - (Tg - Rz))" "\<not> N \<subseteq> Tg - Rz \<or> \<not> R \<subseteq> Rz"
    by simp_all
  have le: "DK - (N \<union> R) \<subseteq> DK - (Tg \<union> Rz)" using a(1,3) by auto
  show ?thesis
  proof (cases "N \<subseteq> Tg - Rz")
    case False
    then obtain x where x: "x \<in> N" "x \<notin> Tg - Rz" by auto
    with a(4) sub have "x \<in> DK" "x \<notin> Tg \<union> Rz" by auto
    with x le have "DK - (N \<union> R) \<subset> DK - (Tg \<union> Rz)" by auto
    with fin have "card (DK - (N \<union> R)) < card (DK - (Tg \<union> Rz))"
      by (simp add: psubset_card_mono)
    then show ?thesis by simp
  next
    case True
    with a(5) obtain y where y: "y \<in> R" "y \<notin> Rz" by auto
    with a(2) have "y \<in> Tg - Rz" by auto
    with True y have "N - R \<subset> Tg - Rz" by auto
    with fin have 2: "card (N - R) < card (Tg - Rz)" by (simp add: psubset_card_mono)
    from le fin have "card (DK - (N \<union> R)) \<le> card (DK - (Tg \<union> Rz))"
      by (simp add: card_mono)
    with 2 show ?thesis by auto
  qed
qed

lemma stuck_final:
  assumes fr: "frameP Rz Rz {} N T1 {} DKd T1 False False"
    and st: "stuckP nd T1 {} Rz T1 {} N" and dj: "T1 \<inter> Rz = {}"
  shows "N = T1 \<and> (\<forall>k\<in>N. \<exists>d\<in>nd k. d \<in> N)"
proof -
  from frameP_D(4) [OF fr] dj have "T1 \<subseteq> N" by blast
  moreover from st have "N \<subseteq> T1" and "\<forall>k\<in>T1. \<exists>d\<in>nd k. d \<in> T1 \<union> N"
    unfolding stuckP_def by auto
  ultimately show ?thesis by auto
qed

lemma loop_post_mono:
  assumes S: "S \<subseteq> S'" and r: "S' \<subseteq> reachable (key_needs rs) S" and p: "loop_post rs S' res"
  shows "loop_post rs S res"
proof -
  note t = reachable_trans [OF r]
  show ?thesis
  proof (cases res)
    case (Inr rl)
    from p have "loop_post rs S' (Inr rl)" unfolding Inr .
    then obtain rts where a: "solved rs rl rts" and b: "S' \<subseteq> label_keys rts"
      and c: "label_keys rts \<subseteq> reachable (key_needs rs) S'"
      unfolding loop_post_def sum.case by (elim exE conjE)
    from S b have b': "S \<subseteq> label_keys rts" by (rule subset_trans)
    from c t have c': "label_keys rts \<subseteq> reachable (key_needs rs) S" by (rule subset_trans)
    from a b' c' have "solved rs rl rts \<and> S \<subseteq> label_keys rts \<and>
        label_keys rts \<subseteq> reachable (key_needs rs) S" by (intro conjI)
    then have "loop_post rs S (Inr rl)" unfolding loop_post_def sum.case by (rule exI)
    with Inr show ?thesis by simp
  next
    case (Inl e)
    show ?thesis
    proof (cases e)
      case (RuleListEmpty x)
      with p Inl have a: "rules_for_target rs x True True = []"
        and b: "as_tuple x \<in> reachable (key_needs rs) S'" by (simp_all add: loop_post_def)
      from b t have "as_tuple x \<in> reachable (key_needs rs) S" by (rule subsetD [rotated])
      with a Inl RuleListEmpty show ?thesis by (simp add: loop_post_def)
    next
      case (CircularOrIncomplete residual partial)
      with p Inl have a: "residual \<noteq> []"
        and b: "label_keys residual \<subseteq> reachable (key_needs rs) S'"
        and c: "\<forall>k\<in>label_keys residual. \<exists>d\<in>key_needs rs k. d \<in> label_keys residual"
        and d: "\<exists>rts. solved rs partial rts" by (simp_all add: loop_post_def)
      from b t have "label_keys residual \<subseteq> reachable (key_needs rs) S" by (rule subset_trans)
      with a c d Inl CircularOrIncomplete show ?thesis by (simp add: loop_post_def)
    qed
  qed
qed

lemma dep_keys_finite [simp]: "finite (dep_keys rs)"
  unfolding dep_keys_def by (rule finite_UN_I) auto

lemma key_needs_subset: "key_needs rs k \<subseteq> dep_keys rs"
  unfolding key_needs_def by (rule needs_subset_dep_keys)

lemma set_minus_Nil_keys: "set_minus targets rts = [] \<Longrightarrow> label_keys targets \<subseteq> label_keys rts"
proof -
  assume "set_minus targets rts = []"
  then have "label_keys (set_minus targets rts) = {}" by simp
  then show ?thesis by (simp only: keys_set_minus Diff_eq_empty_iff)
qed

lemma keys_nonempty: "s \<noteq> [] \<Longrightarrow> label_keys s \<noteq> {}"
  by (cases s) simp_all

lemma diff_un_same: "(A - B) \<union> B = A \<union> B"
  by auto

lemma diff_int_same: "(A - B) \<inter> B = {}"
  by auto

lemma diff_sub_un: "A - B \<subseteq> A \<union> B"
  by auto

lemma un_absorb_sub: "A \<subseteq> B \<Longrightarrow> A \<union> B \<subseteq> B"
  by auto

lemma needed_loop_post:
  assumes "distinct (map as_tuple targets)" and "solved rs rl rts"
  shows "\<exists>res. needed_loop lord rord rs useTags targets rl rts = Some res \<and>
     loop_post rs (label_keys targets \<union> label_keys rts) res"
proof -
  define m where "m = (\<lambda>p. (card (dep_keys rs - (label_keys (fst p) \<union> label_keys (snd p))),
                          card (label_keys (fst p) - label_keys (snd p))))"
  have wfm: "wf (inv_image (less_than <*lex*> less_than) m)"
    by (intro wf_inv_image wf_lex_prod wf_less_than)
  from wfm assms show ?thesis
  proof (induction "(targets, rts)" arbitrary: targets rts rl rule: wf_induct_rule)
    case less
    let ?T = "set_minus targets rts"
    let ?S = "label_keys targets \<union> label_keys rts"
    show ?case
    proof (cases "?T = []")
      case True
      then have r: "needed_loop lord rord rs useTags targets rl rts = Some (Inr rl)"
        by (subst needed_loop.simps) simp
      from set_minus_Nil_keys [OF True] have u: "?S \<subseteq> label_keys rts" by (rule un_absorb_sub)
      have "label_keys rts \<subseteq> ?S" by (rule Un_upper2)
      then have v: "label_keys rts \<subseteq> reachable (key_needs rs) ?S"
        using reachable_base by (rule subset_trans)
      from less.prems(2) u v have "solved rs rl rts \<and> ?S \<subseteq> label_keys rts \<and>
          label_keys rts \<subseteq> reachable (key_needs rs) ?S" by (intro conjI)
      then have "loop_post rs ?S (Inr rl)" unfolding loop_post_def sum.case by (rule exI)
      with r show ?thesis by simp
    next
      case ne: False
      show ?thesis
      proof (cases "pass lord rord rs useTags ?T rl rts")
        case (Inl e)
        with ne have r: "needed_loop lord rord rs useTags targets rl rts = Some (Inl e)"
          by (subst needed_loop.simps) simp
        from pass_Inl [OF Inl] obtain t where t: "t \<in> set ?T" and e: "e = RuleListEmpty t"
          and em: "rules_for_target rs t True True = []" by (elim bexE conjE)
        from t have "as_tuple t \<in> label_keys ?T" unfolding label_keys_def set_map by (rule imageI)
        then have "as_tuple t \<in> ?S" by simp
        then have "as_tuple t \<in> reachable (key_needs rs) ?S"
          by (rule reachable_base [THEN subsetD])
        with e em have "loop_post rs ?S (Inl e)" by (simp add: loop_post_def)
        with r show ?thesis by simp
      next
        case (Inr st)
        note sm = pass_summary [OF Inr less.prems]
        let ?N = "label_keys (new_targets st)" and ?R = "label_keys (rule_target_set st)"
        let ?T1 = "label_keys targets - label_keys rts"
        have S: "?T1 \<union> label_keys rts = ?S" by (rule diff_un_same)
        show ?thesis
        proof (cases "done_something st")
          case True
          with ne Inr have r: "needed_loop lord rord rs useTags targets rl rts =
              needed_loop lord rord rs useTags (new_targets st) (rule_list st) (rule_target_set st)"
            by (subst needed_loop.simps) simp
          from sm(3) True have fr: "frameP (label_keys rts) ?R {} ?N ?T1 {}
             (\<Union>k\<in>?T1. key_needs rs k) ?T1 False True" by simp
          have sub: "(\<Union>k\<in>?T1. key_needs rs k) \<subseteq> dep_keys rs"
            using key_needs_subset by (rule UN_least)
          from frameP_decrease [OF fr sub] have
            "((new_targets st, rule_target_set st), (targets, rts))
               \<in> inv_image (less_than <*lex*> less_than) m"
            by (simp add: m_def)
          from less.hyps [OF this sm(2) sm(1)] obtain res where
            res: "needed_loop lord rord rs useTags (new_targets st) (rule_list st)
                    (rule_target_set st) = Some res"
            and lp: "loop_post rs (?N \<union> ?R) res" by (elim exE conjE)
          from frameP_grow [OF fr] have g: "?S \<subseteq> ?N \<union> ?R" unfolding S .
          from frameP_reach [OF fr] have h: "?N \<union> ?R \<subseteq> reachable (key_needs rs) ?S"
            unfolding S .
          from loop_post_mono [OF g h lp] res r show ?thesis by simp
        next
          case False
          with ne Inr have r: "needed_loop lord rord rs useTags targets rl rts =
              Some (Inl (CircularOrIncomplete (new_targets st) (rule_list st)))"
            by (subst needed_loop.simps) simp
          from sm(4) [OF False] have e: "rule_list st = rl" "rule_target_set st = rts"
            and st: "stuckP (key_needs rs) ?T1 {} (label_keys rts) ?T1 {} ?N" by simp_all
          from sm(3) False e have fr: "frameP (label_keys rts) (label_keys rts) {} ?N ?T1 {}
             (\<Union>k\<in>?T1. key_needs rs k) ?T1 False False" by simp
          have dj: "?T1 \<inter> label_keys rts = {}" by (rule diff_int_same)
          note sf = stuck_final [OF fr st dj]
          note n = sf [THEN conjunct1]
          note c = sf [THEN conjunct2]
          from ne have "label_keys ?T \<noteq> {}" by (rule keys_nonempty)
          then have "?N \<noteq> {}" unfolding n by simp
          then have n1: "new_targets st \<noteq> []" by (cases "new_targets st") simp_all
          have "?N \<subseteq> ?S" unfolding n by (rule diff_sub_un)
          then have n2: "?N \<subseteq> reachable (key_needs rs) ?S"
            using reachable_base by (rule subset_trans)
          from less.prems(2) have "solved rs (rule_list st) rts" unfolding e .
          then have "\<exists>rts'. solved rs (rule_list st) rts'" by (rule exI)
          with n1 n2 c have "loop_post rs ?S (Inl (CircularOrIncomplete (new_targets st) (rule_list st)))"
            by (simp add: loop_post_def)
          with r show ?thesis by simp
        qed
      qed
    qed
  qed
qed

lemma fold_set_add_keys:
  "label_keys (fold set_add xs acc) = label_keys xs \<union> label_keys acc"
  by (induction xs arbitrary: acc) (simp_all add: Un_commute insert_commute)

lemma fold_set_add_distinct:
  "distinct (map as_tuple acc) \<Longrightarrow> distinct (map as_tuple (fold set_add xs acc))"
  by (induction xs arbitrary: acc) (simp_all add: key_distinct_set_add)

lemma solved_Nil: "solved rs [] []"
  by (simp add: solved_def)

lemma needed_to_build_post:
  "\<exists>res. needed_to_build lord rord rs q useTags useMatch = Some res \<and>
     loop_post rs (label_keys (targets_match rs q useMatch)) res"
proof -
  let ?T = "fold set_add (iterate lord (targets_match rs q useMatch)) []"
  have d: "distinct (map as_tuple ?T)" by (rule fold_set_add_distinct) simp
  have k: "label_keys ?T \<union> label_keys [] = label_keys (targets_match rs q useMatch)"
    by (simp add: fold_set_add_keys)
  have "\<exists>res. needed_loop lord rord rs useTags ?T [] [] = Some res \<and>
     loop_post rs (label_keys ?T \<union> label_keys []) res"
    using d solved_Nil by (rule needed_loop_post)
  then show ?thesis unfolding needed_to_build_def k .
qed

lemma rules_for_target_item:
  assumes "r \<in> set (rules_for_target rs t True True)"
  shows "\<exists>k. (k, r) \<in> set rs \<and> match t k \<noteq> None"
proof -
  have "\<forall>r\<in>set (fold (\<lambda>(k, v) rules. if match t k \<noteq> None then rule_set_add v rules else rules) rs acc).
          r \<in> set acc \<or> (\<exists>k. (k, r) \<in> set rs \<and> match t k \<noteq> None)" for acc
  proof (induction rs arbitrary: acc)
    case Nil
    then show ?case by simp
  next
    case (Cons kv rs)
    obtain k v where kv: "kv = (k, v)" by (cases kv)
    have s: "set (rule_set_add v acc) \<subseteq> insert v (set acc)" by (auto simp: rule_set_add_def)
    show ?case
    proof (cases "match t k \<noteq> None")
      case True
      with Cons.IH [of "rule_set_add v acc"] s show ?thesis unfolding kv by simp blast
    next
      case False
      with Cons.IH [of acc] show ?thesis unfolding kv by simp blast
    qed
  qed
  from this [of "[]"] assms show ?thesis by (simp add: rules_for_target_def)
qed

lemma nth_key: "i < length s \<Longrightarrow> as_tuple (s ! i) \<in> label_keys s"
  by (simp add: label_keys_def)

lemma key_nth: "k \<in> label_keys s \<Longrightarrow> \<exists>i<length s. as_tuple (s ! i) = k"
proof -
  assume "k \<in> label_keys s"
  then have "k \<in> set (map as_tuple s)" by (simp only: label_keys_def)
  then obtain i where "i < length (map as_tuple s)" "map as_tuple s ! i = k"
    unfolding in_set_conv_nth by (elim exE conjE)
  then have "i < length s" "as_tuple (s ! i) = k" by simp_all
  then show ?thesis by (intro exI conjI)
qed

lemma take_keys_nth:
  "k \<in> label_keys (take i s) \<Longrightarrow> i \<le> length s \<Longrightarrow> \<exists>j<i. as_tuple (s ! j) = k"
proof -
  assume "k \<in> label_keys (take i s)" and le: "i \<le> length s"
  from key_nth [OF this(1)] obtain j where "j < length (take i s)" "as_tuple (take i s ! j) = k"
    by (elim exE conjE)
  with le have "j < i" "as_tuple (s ! j) = k" by simp_all
  then show ?thesis by (intro exI conjI)
qed

lemma solved_matches:
  assumes so: "solved rs rl rts" and kt: "keyed_by_target rs" and i: "i < length rts"
    and e: "as_tuple t = as_tuple (rts ! i)"
  shows "match t (target (rl ! i)) \<noteq> None"
proof -
  from so i have "rl ! i \<in> set (rules_for_target rs (rts ! i) True True)"
    by (simp add: solved_def)
  from rules_for_target_item [OF this] obtain k where k: "(k, rl ! i) \<in> set rs"
    and m: "match (rts ! i) k \<noteq> None" by (elim exE conjE)
  from kt k have "label_eq k (target (rl ! i))" unfolding keyed_by_target_def by fast
  then have "as_tuple k = as_tuple (target (rl ! i))" by (simp only: label_eq_iff)
  then have "as_tuple (target (rl ! i)) = as_tuple k" by (rule sym)
  from match_cong [OF e this] m show ?thesis by simp
qed

lemma deps_in_needs:
  assumes "r \<in> set (rules_for_target rs t True True)" and "d \<in> set (deps r)"
  shows "as_tuple d \<in> needs rs t"
proof -
  from assms(2) have "as_tuple d \<in> label_keys (deps r)" unfolding label_keys_def set_map by (rule imageI)
  moreover from assms(1) have "deps r \<in> set (map deps (rules_for_target rs t True True))"
    unfolding set_map by (rule imageI)
  ultimately show ?thesis unfolding needs_def keys_concat by (rule UN_I [rotated])
qed

lemma keys_take: "label_keys (take i s) \<subseteq> label_keys s"
  unfolding label_keys_def set_map by (rule image_mono) (rule set_take_subset)

lemma solved_pos:
  assumes so: "solved rs rl rts" and k: "k \<in> label_keys rts" and d: "d \<in> key_needs rs k"
  shows "\<exists>i j. j < i \<and> i < length (map as_tuple rts) \<and> d = map as_tuple rts ! j \<and>
     k = map as_tuple rts ! i"
proof -
  from key_nth [OF k] obtain i where i: "i < length rts" and e: "as_tuple (rts ! i) = k"
    by (elim exE conjE)
  from so i have n: "needs rs (rts ! i) \<subseteq> label_keys (take i rts)" by (simp add: solved_def)
  from d have "d \<in> needs rs (rts ! i)" unfolding e [symmetric] key_needs_eq .
  with n have "d \<in> label_keys (take i rts)" by (rule subsetD)
  from take_keys_nth [OF this] i obtain j where j: "j < i" and f: "as_tuple (rts ! j) = d"
    by auto
  from i j e f show ?thesis by (intro exI [of _ i] exI [of _ j]) simp
qed

lemma solved_closed:
  assumes so: "solved rs rl rts" and k: "k \<in> label_keys rts" and d: "d \<in> key_needs rs k"
  shows "d \<in> label_keys rts"
proof -
  from solved_pos [OF so k d] obtain i j where "j < i" "i < length (map as_tuple rts)"
    "d = map as_tuple rts ! j" by (elim exE conjE)
  then have "j < length rts" "d = as_tuple (rts ! j)" by simp_all
  then show ?thesis by (simp add: nth_key)
qed

lemma solved_keys_closed:
  assumes so: "solved rs rl rts"
    and sub: "label_keys (targets_match rs q useMatch) \<subseteq> label_keys rts"
  shows "needed_keys rs q useMatch \<subseteq> label_keys rts"
  unfolding needed_keys_def using sub
proof (rule reachable_closed)
  fix k d assume "k \<in> label_keys rts" "d \<in> key_needs rs k"
  with so show "d \<in> label_keys rts" by (rule solved_closed)
qed

text \<open>
  C9. When the solver succeeds, the rule list has exactly one entry for each needed target
  (the targets matching the query and everything they depend on, directly or not): there
  is a list \<open>satisfied\<close> of labels, as long as the rule list and without repetition,
  whose labels are exactly the needed targets, such that the rule at a position is one of
  the rules matching the target at that position, and the dependencies of all rules
  matching that target are among the targets at earlier positions.  So a target with
  several matching rules still contributes one entry, and the rule list is as long as the
  number of needed targets.
\<close>

theorem single_rule_per_target:
  assumes "needed_to_build lord rord rs q useTags useMatch = Some (Inr rl)"
  shows "length rl = card (needed_keys rs q useMatch) \<and>
     (\<exists>satisfied. length satisfied = length rl \<and> distinct (map as_tuple satisfied) \<and>
        label_keys satisfied = needed_keys rs q useMatch \<and>
        (\<forall>i<length rl.
           rl ! i \<in> set (rules_for_target rs (satisfied ! i) useTags True) \<and>
           needs rs (satisfied ! i) \<subseteq> label_keys (take i satisfied)))"
proof -
  from needed_to_build_post [of lord rord rs q useTags useMatch] assms
  have "loop_post rs (label_keys (targets_match rs q useMatch)) (Inr rl)" by simp
  then obtain rts where so: "solved rs rl rts"
    and sub: "label_keys (targets_match rs q useMatch) \<subseteq> label_keys rts"
    and rch: "label_keys rts \<subseteq> needed_keys rs q useMatch"
    unfolding loop_post_def sum.case needed_keys_def by (elim exE conjE)
  from rch solved_keys_closed [OF so sub] have e: "label_keys rts = needed_keys rs q useMatch"
    by (rule equalityI)
  from so have len: "length rts = length rl" and d: "distinct (map as_tuple rts)"
    and pos: "\<forall>i<length rts. rl ! i \<in> set (rules_for_target rs (rts ! i) True True) \<and>
                       needs rs (rts ! i) \<subseteq> label_keys (take i rts)"
    by (simp_all add: solved_def)
  from d have "card (set (map as_tuple rts)) = length (map as_tuple rts)" by (rule distinct_card)
  then have c: "length rl = card (needed_keys rs q useMatch)"
    unfolding e [symmetric] label_keys_def len [symmetric] by simp
  have u: "rules_for_target rs t useTags True = rules_for_target rs t True True" for t
    by (simp add: rules_for_target_def)
  from pos have pos': "\<forall>i<length rl.
           rl ! i \<in> set (rules_for_target rs (rts ! i) useTags True) \<and>
           needs rs (rts ! i) \<subseteq> label_keys (take i rts)"
    unfolding len u .
  from len d e pos' have "length rts = length rl \<and> distinct (map as_tuple rts) \<and>
        label_keys rts = needed_keys rs q useMatch \<and>
        (\<forall>i<length rl.
           rl ! i \<in> set (rules_for_target rs (rts ! i) useTags True) \<and>
           needs rs (rts ! i) \<subseteq> label_keys (take i rts))" by (intro conjI)
  then have "\<exists>satisfied. length satisfied = length rl \<and> distinct (map as_tuple satisfied) \<and>
        label_keys satisfied = needed_keys rs q useMatch \<and>
        (\<forall>i<length rl.
           rl ! i \<in> set (rules_for_target rs (satisfied ! i) useTags True) \<and>
           needs rs (satisfied ! i) \<subseteq> label_keys (take i satisfied))" by (rule exI)
  with c show ?thesis by (rule conjI)
qed

theorem single_rule_per_target_witness:
  "needed_to_build (\<lambda>xs. xs) (\<lambda>xs. xs) package_a_rules package_a True False
     = Some (Inr [depend_none None checkout_any, depend_one None package_a checkout_a]) \<and>
   rules_for_target package_a_rules checkout_a True True
     = [depend_none None checkout_a, depend_none None checkout_any] \<and>
   length [depend_none (None :: nat option) checkout_any, depend_one None package_a checkout_a]
     = card (needed_keys package_a_rules package_a False) \<and>
   (\<exists>satisfied.
      length satisfied
        = length [depend_none (None :: nat option) checkout_any,
                  depend_one None package_a checkout_a] \<and>
      distinct (map as_tuple satisfied) \<and>
      label_keys satisfied = needed_keys package_a_rules package_a False \<and>
      (\<forall>i<length [depend_none (None :: nat option) checkout_any,
                     depend_one None package_a checkout_a].
         [depend_none None checkout_any, depend_one None package_a checkout_a] ! i
           \<in> set (rules_for_target package_a_rules (satisfied ! i) True True) \<and>
         needs package_a_rules (satisfied ! i) \<subseteq> label_keys (take i satisfied)))"
proof -
  have h: "needed_to_build (\<lambda>xs. xs) (\<lambda>xs. xs) package_a_rules package_a True False
     = Some (Inr [depend_none None checkout_any, depend_one None package_a checkout_a])"
    by code_simp
  have r: "rules_for_target package_a_rules checkout_a True True
     = [depend_none None checkout_a, depend_none None checkout_any]"
    by code_simp
  from h conjI [OF r single_rule_per_target [OF h]] show ?thesis by (rule conjI)
qed

text \<open>
  C1 (counterexample). With a wildcard rule for the checkouts, the rule list for
  \<open>package:a/built\<close> is the wildcard rule followed by the package's rule; the package's
  rule depends on \<open>checkout:a/checked_out\<close>, and the only rule before it has the target
  \<open>checkout:*/checked_out\<close>, which is not that label.
\<close>

theorem solver_soundness_counterexample:
  "needed_to_build (\<lambda>xs. xs) (\<lambda>xs. xs)
     [(package_a, depend_one (None :: nat option) package_a checkout_a),
      (checkout_any, depend_none None checkout_any)] package_a True False
     = Some (Inr [depend_none None checkout_any, depend_one None package_a checkout_a]) \<and>
   checkout_a \<in> set (deps (depend_one (None :: nat option) package_a checkout_a)) \<and>
   \<not> label_eq checkout_a (target (depend_none (None :: nat option) checkout_any))"
  by code_simp

text \<open>
  C1 (amended). For a rule set that stores every rule under its target: when the solver
  returns a rule list, every target matching the query matches the target of a rule in the
  list, and every dependency of a rule in the list matches the target of a rule earlier in
  the list.
\<close>

theorem solver_soundness:
  assumes kt: "keyed_by_target rs"
    and run: "needed_to_build lord rord rs q useTags useMatch = Some (Inr rl)"
  shows "(\<forall>t\<in>set (targets_match rs q useMatch). \<exists>r\<in>set rl. match t (target r) \<noteq> None) \<and>
         (\<forall>i<length rl. \<forall>d\<in>set (deps (rl ! i)). \<exists>j<i. match d (target (rl ! j)) \<noteq> None)"
proof -
  from needed_to_build_post [of lord rord rs q useTags useMatch] run
  have "loop_post rs (label_keys (targets_match rs q useMatch)) (Inr rl)" by simp
  then obtain rts where so: "solved rs rl rts"
    and sub: "label_keys (targets_match rs q useMatch) \<subseteq> label_keys rts"
    unfolding loop_post_def sum.case by (elim exE conjE)
  from so have len: "length rl = length rts" by (simp add: solved_def)
  have 1: "\<exists>r\<in>set rl. match t (target r) \<noteq> None" if "t \<in> set (targets_match rs q useMatch)" for t
  proof -
    from that have "as_tuple t \<in> label_keys (targets_match rs q useMatch)"
      unfolding label_keys_def set_map by (rule imageI)
    with sub have "as_tuple t \<in> label_keys rts" by (rule subsetD)
    from key_nth [OF this] obtain i where i: "i < length rts" and e: "as_tuple (rts ! i) = as_tuple t"
      by (elim exE conjE)
    from solved_matches [OF so kt i e [symmetric]] have p: "match t (target (rl ! i)) \<noteq> None" .
    from i len have m: "rl ! i \<in> set rl" by simp
    from m p show ?thesis by (rule rev_bexI)
  qed
  have 2: "\<exists>j<i. match d (target (rl ! j)) \<noteq> None" if i: "i < length rl" and d: "d \<in> set (deps (rl ! i))"
    for i d
  proof -
    from i len have i': "i < length rts" by simp
    with so have "rl ! i \<in> set (rules_for_target rs (rts ! i) True True)"
      and n: "needs rs (rts ! i) \<subseteq> label_keys (take i rts)" by (simp_all add: solved_def)
    from deps_in_needs [OF this(1) d] n have "as_tuple d \<in> label_keys (take i rts)" by (rule subsetD [rotated])
    from take_keys_nth [OF this] i' obtain j where j: "j < i" and e: "as_tuple (rts ! j) = as_tuple d"
      by auto
    from j i' have "j < length rts" by simp
    from solved_matches [OF so kt this e [symmetric]] j show ?thesis by (intro exI conjI)
  qed
  from 1 2 show ?thesis by (intro conjI ballI allI impI)
qed

theorem solver_soundness_witness:
  "keyed_by_target [(package_a, depend_one (None :: nat option) package_a checkout_a),
      (checkout_any, depend_none None checkout_any)] \<and>
   needed_to_build (\<lambda>xs. xs) (\<lambda>xs. xs)
     [(package_a, depend_one (None :: nat option) package_a checkout_a),
      (checkout_any, depend_none None checkout_any)] package_a True False
     = Some (Inr [depend_none None checkout_any, depend_one None package_a checkout_a]) \<and>
   (\<exists>r\<in>set [depend_none (None :: nat option) checkout_any, depend_one None package_a checkout_a].
      match package_a (target r) \<noteq> None) \<and>
   (\<exists>j<1. match checkout_a (target ([depend_none (None :: nat option) checkout_any,
              depend_one None package_a checkout_a] ! j)) \<noteq> None)"
proof -
  have k: "keyed_by_target [(package_a, depend_one (None :: nat option) package_a checkout_a),
      (checkout_any, depend_none None checkout_any)]"
    by code_simp
  have h: "needed_to_build (\<lambda>xs. xs) (\<lambda>xs. xs)
     [(package_a, depend_one (None :: nat option) package_a checkout_a),
      (checkout_any, depend_none None checkout_any)] package_a True False
     = Some (Inr [depend_none None checkout_any, depend_one None package_a checkout_a])"
    by code_simp
  note c = solver_soundness [OF k h]
  have t: "package_a \<in> set (targets_match
      [(package_a, depend_one (None :: nat option) package_a checkout_a),
       (checkout_any, depend_none None checkout_any)] package_a False)"
    by (simp add: targets_match_def)
  have i: "(1::nat) < length [depend_none (None :: nat option) checkout_any,
      depend_one None package_a checkout_a]" by simp
  have d: "checkout_a \<in> set (deps ([depend_none (None :: nat option) checkout_any,
      depend_one None package_a checkout_a] ! 1))"
    by (simp add: depend_one_def rule_add_def set_add_def label_in_def)
  from c [THEN conjunct1, rule_format, OF t] have 1:
    "\<exists>r\<in>set [depend_none (None :: nat option) checkout_any, depend_one None package_a checkout_a].
      match package_a (target r) \<noteq> None" .
  from c [THEN conjunct2, rule_format, OF i d] have 2:
    "\<exists>j<1. match checkout_a (target ([depend_none (None :: nat option) checkout_any,
              depend_one None package_a checkout_a] ! j)) \<noteq> None" .
  from k conjI [OF h conjI [OF 1 2]] show ?thesis by (rule conjI)
qed

lemma acyclic_by_positions:
  assumes dist: "distinct ks"
    and pos: "\<And>d k. (d, k) \<in> r \<Longrightarrow> \<exists>i j. j < i \<and> i < length ks \<and> d = ks ! j \<and> k = ks ! i"
  shows "acyclic r"
proof (rule acyclicI, rule allI, rule notI)
  fix x assume "(x, x) \<in> r\<^sup>+"
  have "\<exists>i j. j < i \<and> i < length ks \<and> a = ks ! j \<and> b = ks ! i" if "(a, b) \<in> r\<^sup>+" for a b
    using that
  proof (induction rule: trancl_induct)
    case (base y)
    then show ?case by (rule pos)
  next
    case (step y z)
    from step.IH obtain i j where 1: "j < i" "i < length ks" "a = ks ! j" "y = ks ! i" by blast
    from pos [OF step.hyps(2)] obtain i' j' where 2: "j' < i'" "i' < length ks" "y = ks ! j'" "z = ks ! i'"
      by blast
    from 1 2 have "ks ! i = ks ! j'" "j' < length ks" by simp_all
    with dist 1(2) have "i = j'" by (simp add: nth_eq_iff_index_eq)
    with 1 2 have "j < i'" by simp
    with 1 2 show ?case by blast
  qed
  from this [OF \<open>(x, x) \<in> r\<^sup>+\<close>] obtain i j where "j < i" "i < length ks" "ks ! j = ks ! i" by auto
  with dist show False by (simp add: nth_eq_iff_index_eq)
qed

lemma no_stuck_if_acyclic:
  assumes ac: "acyclic {(d, k). k \<in> Rch \<and> d \<in> nd k}"
    and fin: "finite {(d, k). k \<in> Rch \<and> d \<in> nd k}"
    and sub: "N \<subseteq> Rch" and ne: "N \<noteq> {}" and st: "\<forall>k\<in>N. \<exists>d\<in>nd k. d \<in> N"
  shows False
proof -
  from fin ac have "wf {(d, k). k \<in> Rch \<and> d \<in> nd k}" by (rule finite_acyclic_wf)
  moreover from ne obtain x where "x \<in> N" by blast
  ultimately obtain z where z: "z \<in> N" and m: "\<And>y. (y, z) \<in> {(d, k). k \<in> Rch \<and> d \<in> nd k} \<Longrightarrow> y \<notin> N"
    by (rule wfE_min) blast
  from st z obtain d where d: "d \<in> nd z" "d \<in> N" by blast
  with z sub have "(d, z) \<in> {(d, k). k \<in> Rch \<and> d \<in> nd k}" by blast
  from m [OF this] d show False by simp
qed

lemma reachable_finite:
  assumes "finite S" and "finite DK" and "\<And>k. nd k \<subseteq> DK"
  shows "finite (reachable nd S)"
proof -
  have "reachable nd S \<subseteq> S \<union> DK"
  proof (rule reachable_closed)
    show "S \<subseteq> S \<union> DK" by simp
  next
    fix k d assume "d \<in> nd k"
    with assms(3) show "d \<in> S \<union> DK" by blast
  qed
  with assms show ?thesis by (simp add: finite_subset)
qed

lemma dep_graph_finite:
  assumes "finite Rch" and "finite DK" and "\<And>k. nd k \<subseteq> DK"
  shows "finite {(d, k). k \<in> Rch \<and> d \<in> nd k}"
proof -
  have "{(d, k). k \<in> Rch \<and> d \<in> nd k} \<subseteq> DK \<times> Rch" using assms(3) by blast
  with assms show ?thesis by (simp add: finite_subset)
qed

lemma solved_has_rule:
  assumes so: "solved rs rl rts" and k: "k \<in> label_keys rts"
  shows "rules_for_target rs (label_of k) True True \<noteq> []"
proof -
  from key_nth [OF k] obtain i where i: "i < length rts" and e: "as_tuple (rts ! i) = k"
    by (elim exE conjE)
  from so i have "rl ! i \<in> set (rules_for_target rs (rts ! i) True True)" by (simp add: solved_def)
  then have ne: "rules_for_target rs (rts ! i) True True \<noteq> []" by auto
  have "as_tuple (rts ! i) = as_tuple (label_of k)" using e by simp
  then have "rules_for_target rs (rts ! i) True True = rules_for_target rs (label_of k) True True"
    by (rule rules_for_target_cong)
  with ne show ?thesis by simp
qed

lemma success_complete_acyclic:
  assumes so: "solved rs rl rts"
    and sub: "label_keys (targets_match rs q useMatch) \<subseteq> label_keys rts"
  shows "every_target_has_rule rs q useMatch \<and> graph_acyclic rs q useMatch"
proof -
  have nk: "needed_keys rs q useMatch \<subseteq> label_keys rts"
    unfolding needed_keys_def using sub
  proof (rule reachable_closed)
    fix k d assume "k \<in> label_keys rts" "d \<in> key_needs rs k"
    with so show "d \<in> label_keys rts" by (rule solved_closed)
  qed
  have 1: "every_target_has_rule rs q useMatch"
    unfolding every_target_has_rule_def
  proof
    fix k assume "k \<in> needed_keys rs q useMatch"
    with nk have "k \<in> label_keys rts" by (rule subsetD)
    with so show "rules_for_target rs (label_of k) True True \<noteq> []" by (rule solved_has_rule)
  qed
  from so have dist: "distinct (map as_tuple rts)" by (simp add: solved_def)
  have 2: "graph_acyclic rs q useMatch"
    unfolding graph_acyclic_def using dist
  proof (rule acyclic_by_positions)
    fix d k assume "(d, k) \<in> {(d, k). k \<in> needed_keys rs q useMatch \<and> d \<in> key_needs rs k}"
    then have k: "k \<in> needed_keys rs q useMatch" and d: "d \<in> key_needs rs k" by simp_all
    from nk k have "k \<in> label_keys rts" by (rule subsetD)
    from solved_pos [OF so this d]
    show "\<exists>i j. j < i \<and> i < length (map as_tuple rts) \<and> d = map as_tuple rts ! j \<and>
       k = map as_tuple rts ! i" .
  qed
  from 1 2 show ?thesis by (rule conjI)
qed

lemma needed_keys_graph_finite:
  "finite {(d, k). k \<in> needed_keys rs q useMatch \<and> d \<in> key_needs rs k}"
proof (rule dep_graph_finite)
  show "finite (needed_keys rs q useMatch)"
    unfolding needed_keys_def
    by (rule reachable_finite [of _ "dep_keys rs"]) (simp_all add: key_needs_subset)
  show "finite (dep_keys rs)" by simp
  show "key_needs rs k \<subseteq> dep_keys rs" for k by (rule key_needs_subset)
qed

lemma empty_not_complete:
  assumes "as_tuple t \<in> needed_keys rs q useMatch" and "rules_for_target rs t True True = []"
  shows "\<not> every_target_has_rule rs q useMatch"
proof
  assume "every_target_has_rule rs q useMatch"
  then have "\<forall>k\<in>needed_keys rs q useMatch. rules_for_target rs (label_of k) True True \<noteq> []"
    by (simp only: every_target_has_rule_def)
  from this assms(1) have ne: "rules_for_target rs (label_of (as_tuple t)) True True \<noteq> []"
    by (rule bspec)
  have "as_tuple (label_of (as_tuple t)) = as_tuple t" by simp
  then have "rules_for_target rs (label_of (as_tuple t)) True True = rules_for_target rs t True True"
    by (rule rules_for_target_cong)
  with ne assms(2) show False by simp
qed

lemma circular_not_acyclic:
  assumes ne: "residual \<noteq> []"
    and sub: "label_keys residual \<subseteq> needed_keys rs q useMatch"
    and st: "\<forall>k\<in>label_keys residual. \<exists>d\<in>key_needs rs k. d \<in> label_keys residual"
  shows "\<not> graph_acyclic rs q useMatch"
proof
  assume "graph_acyclic rs q useMatch"
  then have ac: "acyclic {(d, k). k \<in> needed_keys rs q useMatch \<and> d \<in> key_needs rs k}"
    by (simp only: graph_acyclic_def)
  from ne have "label_keys residual \<noteq> {}" by (rule keys_nonempty)
  with ac needed_keys_graph_finite sub show False using st by (rule no_stuck_if_acyclic)
qed

text \<open>
  C2 (counterexample). With no rule at all, the solver stops at the query itself with the
  error of an empty rule list, not with the error of a circular or incomplete graph.
\<close>

theorem solver_completeness_counterexample:
  "needed_to_build (\<lambda>xs. xs) (\<lambda>xs. xs) ([] :: nat ruleset) package_a True False
     = Some (Inl (RuleListEmpty package_a))"
  by code_simp

text \<open>
  C2 (amended). The solver always returns.  It returns a rule list exactly when every
  needed target has a matching rule and the needed part of the graph is acyclic.
  Otherwise it fails in one of two ways: with the error of an empty rule list, for a
  needed target that no rule matches; or with the error of a circular or incomplete
  graph, which reports targets left over (at least one, all of them needed, each
  depending on one of them) and the rule list built so far.
\<close>

theorem solver_completeness:
  "\<exists>res. needed_to_build lord rord rs q useTags useMatch = Some res \<and>
     ((\<exists>rl. res = Inr rl) \<longleftrightarrow>
        every_target_has_rule rs q useMatch \<and> graph_acyclic rs q useMatch) \<and>
     (\<forall>e. res = Inl e \<longrightarrow>
        (\<exists>t. e = RuleListEmpty t \<and> as_tuple t \<in> needed_keys rs q useMatch \<and>
             rules_for_target rs t True True = []) \<or>
        (\<exists>residual partial. e = CircularOrIncomplete residual partial \<and> residual \<noteq> [] \<and>
             label_keys residual \<subseteq> needed_keys rs q useMatch \<and>
             (\<forall>k\<in>label_keys residual. \<exists>d\<in>key_needs rs k. d \<in> label_keys residual) \<and>
             (\<exists>satisfied. solved rs partial satisfied)))"
proof -
  from needed_to_build_post [of lord rord rs q useTags useMatch] obtain res where
    r: "needed_to_build lord rord rs q useTags useMatch = Some res"
    and lp: "loop_post rs (label_keys (targets_match rs q useMatch)) res"
    by (elim exE conjE)
  have "((\<exists>rl. res = Inr rl) \<longleftrightarrow>
        every_target_has_rule rs q useMatch \<and> graph_acyclic rs q useMatch) \<and>
     (\<forall>e. res = Inl e \<longrightarrow>
        (\<exists>t. e = RuleListEmpty t \<and> as_tuple t \<in> needed_keys rs q useMatch \<and>
             rules_for_target rs t True True = []) \<or>
        (\<exists>residual partial. e = CircularOrIncomplete residual partial \<and> residual \<noteq> [] \<and>
             label_keys residual \<subseteq> needed_keys rs q useMatch \<and>
             (\<forall>k\<in>label_keys residual. \<exists>d\<in>key_needs rs k. d \<in> label_keys residual) \<and>
             (\<exists>satisfied. solved rs partial satisfied)))"
  proof (cases res)
    case (Inr rl)
    with lp obtain rts where "solved rs rl rts"
      and "label_keys (targets_match rs q useMatch) \<subseteq> label_keys rts"
      unfolding loop_post_def by auto
    from success_complete_acyclic [OF this] Inr show ?thesis by simp
  next
    case (Inl e)
    show ?thesis
    proof (cases e)
      case (RuleListEmpty t)
      with lp Inl have a: "rules_for_target rs t True True = []"
        and b: "as_tuple t \<in> needed_keys rs q useMatch"
        by (simp_all add: loop_post_def needed_keys_def)
      from empty_not_complete [OF b a] a b Inl RuleListEmpty show ?thesis by simp
    next
      case (CircularOrIncomplete residual partial)
      with lp Inl have a: "residual \<noteq> []"
        and b: "label_keys residual \<subseteq> needed_keys rs q useMatch"
        and c: "\<forall>k\<in>label_keys residual. \<exists>d\<in>key_needs rs k. d \<in> label_keys residual"
        and d: "\<exists>rts. solved rs partial rts"
        by (simp_all add: loop_post_def needed_keys_def)
      from circular_not_acyclic [OF a b c] a b c d Inl CircularOrIncomplete show ?thesis by simp
    qed
  qed
  note b = this
  from r b show ?thesis by (intro exI [of _ res]) (rule conjI)
qed

theorem solver_completeness_witness:
  "every_target_has_rule [(checkout_a, depend_none (None :: nat option) checkout_a)] checkout_a False \<and>
   graph_acyclic [(checkout_a, depend_none (None :: nat option) checkout_a)] checkout_a False \<and>
   (\<exists>rl. needed_to_build (\<lambda>xs. xs) (\<lambda>xs. xs)
      [(checkout_a, depend_none (None :: nat option) checkout_a)] checkout_a True False
        = Some (Inr rl))"
proof -
  let ?rs = "[(checkout_a, depend_none (None :: nat option) checkout_a)]"
  have dk: "dep_keys ?rs = {}" by (simp add: dep_keys_def depend_none_def)
  have kn: "key_needs ?rs k = {}" for k using key_needs_subset [of ?rs k] unfolding dk by simp
  have nk: "needed_keys ?rs checkout_a False \<subseteq> {as_tuple checkout_a}"
    unfolding needed_keys_def
  proof (rule reachable_closed)
    show "label_keys (targets_match ?rs checkout_a False) \<subseteq> {as_tuple checkout_a}"
      by (simp add: targets_match_def)
  next
    fix k d assume "d \<in> key_needs ?rs k"
    then show "d \<in> {as_tuple checkout_a}" unfolding kn by simp
  qed
  have ru: "rules_for_target ?rs checkout_a True True \<noteq> []" by code_simp
  have "as_tuple (label_of (as_tuple checkout_a)) = as_tuple checkout_a" by simp
  then have "rules_for_target ?rs (label_of (as_tuple checkout_a)) True True
      = rules_for_target ?rs checkout_a True True" by (rule rules_for_target_cong)
  with ru have ru': "rules_for_target ?rs (label_of (as_tuple checkout_a)) True True \<noteq> []" by simp
  have c: "every_target_has_rule ?rs checkout_a False"
    unfolding every_target_has_rule_def
  proof
    fix k assume "k \<in> needed_keys ?rs checkout_a False"
    with nk have "k = as_tuple checkout_a" by blast
    with ru' show "rules_for_target ?rs (label_of k) True True \<noteq> []" by simp
  qed
  have e: "{(d, k). k \<in> needed_keys ?rs checkout_a False \<and> d \<in> key_needs ?rs k} = {}"
    unfolding kn by simp
  have a: "graph_acyclic ?rs checkout_a False"
    unfolding graph_acyclic_def e by (simp add: acyclic_def)
  from solver_completeness [of "\<lambda>xs. xs" "\<lambda>xs. xs" ?rs checkout_a True False] obtain res where
    r: "needed_to_build (\<lambda>xs. xs) (\<lambda>xs. xs) ?rs checkout_a True False = Some res"
    and i: "(\<exists>rl. res = Inr rl) \<longleftrightarrow>
        every_target_has_rule ?rs checkout_a False \<and> graph_acyclic ?rs checkout_a False"
    by (elim exE conjE)
  from i c a obtain rl where "res = Inr rl" by blast
  with r have "\<exists>rl. needed_to_build (\<lambda>xs. xs) (\<lambda>xs. xs) ?rs checkout_a True False = Some (Inr rl)"
    by simp
  with c a show ?thesis by (intro conjI)
qed

section \<open>Properties of the commands\<close>

lemma initial_list_of_kept:
  assumes "initial_list_of lord b dt al args acc = Inr il"
  shows "set acc \<subseteq> set il \<and>
     (\<forall>word\<in>set args. word \<noteq> ''_all'' \<longrightarrow>
        (\<forall>l\<in>set (label_from_fragment b word dt). target_label_exists b l \<longrightarrow> l \<in> set il))"
  using assms
proof (induction args arbitrary: acc)
  case Nil
  then show ?case by simp
next
  case (Cons word rest)
  show ?case
  proof (cases "word = ''_all''")
    case True
    with Cons.prems have "initial_list_of lord b dt al rest (acc @ iterate lord al) = Inr il"
      by simp
    from Cons.IH [OF this] True show ?thesis by auto
  next
    case False
    let ?used = "filter (target_label_exists b) (label_from_fragment b word dt)"
    from False Cons.prems have "initial_list_of lord b dt al rest (acc @ ?used) = Inr il"
      by (simp add: Let_def split: if_splits)
    from Cons.IH [OF this] False show ?thesis by auto
  qed
qed

lemma as_tuple_force_tag:
  "rt \<noteq> [] \<Longrightarrow> as_tuple (force_tag (Some rt) l) = as_tuple (l\<lparr>tag := rt\<rparr>)"
  by (simp add: force_tag_def copy_with_tag_def copy_def as_tuple_def)

lemma add_targets_of_kind_mono:
  "label_keys result_set \<subseteq> label_keys (add_targets_of_kind kind rt rules result_set)"
  unfolding add_targets_of_kind_def
proof (induction rules arbitrary: result_set)
  case Nil
  then show ?case by simp
next
  case (Cons r rules)
  have "label_keys result_set \<subseteq> label_keys (if type (target r) = kind
      then set_add (force_tag rt (target r)) result_set else result_set)"
    by (simp add: subset_insertI)
  from this Cons.IH show ?case unfolding fold_simps by (rule subset_trans)
qed

lemma fold_set_add_mono: "label_keys acc \<subseteq> label_keys (fold set_add xs acc)"
  unfolding fold_set_add_keys by (rule Un_upper2)

lemma checkout_labels_other:
  fixes b :: "'a invocation"
  assumes a: "type l \<noteq> LabelType_Checkout"
    and b: "checkout_labels lord rord b rt (l # rest) rs0 = Some (Inr res)"
  shows "\<exists>rules :: 'a rule list. checkout_labels lord rord b rt rest
           (add_targets_of_kind LabelType_Checkout rt rules rs0) = Some (Inr res)"
proof (cases "needed_to_build lord rord (inv_ruleset b) l True False")
  case None
  with a b show ?thesis by (simp split: if_splits)
next
  case (Some r)
  show ?thesis
  proof (cases r)
    case (Inl e)
    with Some a b show ?thesis by (simp split: if_splits)
  next
    case (Inr rules)
    with Some a b have "checkout_labels lord rord b rt rest
           (add_targets_of_kind LabelType_Checkout rt rules rs0) = Some (Inr res)"
      by (simp split: if_splits)
    then show ?thesis by (rule exI)
  qed
qed

lemma checkout_labels_forced:
  fixes b :: "'a invocation"
  assumes "checkout_labels lord rord b rt il rs0 = Some (Inr res)"
  shows "label_keys rs0 \<subseteq> label_keys res \<and>
     (\<forall>l\<in>set il. type l = LabelType_Checkout \<longrightarrow> as_tuple (force_tag rt l) \<in> label_keys res)"
  using assms
proof (induction il arbitrary: rs0)
  case Nil
  then show ?case by simp
next
  case (Cons l rest)
  show ?case
  proof (cases "type l = LabelType_Checkout")
    case True
    with Cons.prems have "checkout_labels lord rord b rt rest (set_add (force_tag rt l) rs0)
        = Some (Inr res)" by simp
    note ih = Cons.IH [OF this]
    from ih have s: "insert (as_tuple (force_tag rt l)) (label_keys rs0) \<subseteq> label_keys res"
      by simp
    then have 1: "label_keys rs0 \<subseteq> label_keys res" and 2: "as_tuple (force_tag rt l) \<in> label_keys res"
      by (simp_all only: insert_subset)
    from 1 2 ih show ?thesis by simp
  next
    case False
    from checkout_labels_other [OF False Cons.prems] obtain rules :: "'a rule list" where
      "checkout_labels lord rord b rt rest (add_targets_of_kind LabelType_Checkout rt rules rs0)
        = Some (Inr res)" by (elim exE)
    note ih = Cons.IH [OF this]
    from add_targets_of_kind_mono ih [THEN conjunct1] have "label_keys rs0 \<subseteq> label_keys res"
      by (rule subset_trans)
    with ih False show ?thesis by simp
  qed
qed

lemma package_labels_other:
  assumes a: "type l \<noteq> LabelType_Package"
    and b: "package_labels lord rord b rt (l # rest) rs0 = Some (Inr res)"
  shows "\<exists>rs1. package_labels lord rord b rt rest rs1 = Some (Inr res) \<and>
        label_keys rs0 \<subseteq> label_keys rs1"
proof (cases "type l = LabelType_Checkout")
  case True
  show ?thesis
  proof (cases "packages_from_checkout_label lord rord b rt l")
    case None
    with a b True show ?thesis by simp
  next
    case (Some r)
    show ?thesis
    proof (cases r)
      case (Inl e)
      with Some a b True show ?thesis by simp
    next
      case (Inr packages)
      with Some a b True have "package_labels lord rord b rt rest
          (fold set_add (iterate lord packages) rs0) = Some (Inr res)" by simp
      with fold_set_add_mono [of rs0 "iterate lord packages"] show ?thesis
        by (intro exI [of _ "fold set_add (iterate lord packages) rs0"] conjI)
    qed
  qed
next
  case nc: False
  show ?thesis
  proof (cases "needed_to_build lord rord (inv_ruleset b) l True False")
    case None
    with a b nc show ?thesis by (simp split: if_splits)
  next
    case (Some r)
    show ?thesis
    proof (cases r)
      case (Inl e)
      with Some a b nc show ?thesis by (simp split: if_splits)
    next
      case (Inr rules)
      with Some a b nc have "package_labels lord rord b rt rest
          (add_targets_of_kind LabelType_Package rt rules rs0) = Some (Inr res)"
        by (simp split: if_splits)
      with add_targets_of_kind_mono [of rs0 LabelType_Package rt rules] show ?thesis
        by (intro exI [of _ "add_targets_of_kind LabelType_Package rt rules rs0"] conjI)
    qed
  qed
qed

lemma package_labels_forced:
  assumes "package_labels lord rord b rt il rs0 = Some (Inr res)"
  shows "label_keys rs0 \<subseteq> label_keys res \<and>
     (\<forall>l\<in>set il. type l = LabelType_Package \<longrightarrow> as_tuple (force_tag rt l) \<in> label_keys res)"
  using assms
proof (induction il arbitrary: rs0)
  case Nil
  then show ?case by simp
next
  case (Cons l rest)
  show ?case
  proof (cases "type l = LabelType_Package")
    case True
    with Cons.prems have "package_labels lord rord b rt rest (set_add (force_tag rt l) rs0)
        = Some (Inr res)" by simp
    note ih = Cons.IH [OF this]
    from ih have s: "insert (as_tuple (force_tag rt l)) (label_keys rs0) \<subseteq> label_keys res"
      by simp
    then have 1: "label_keys rs0 \<subseteq> label_keys res" and 2: "as_tuple (force_tag rt l) \<in> label_keys res"
      by (simp_all only: insert_subset)
    from 1 2 ih show ?thesis by simp
  next
    case False
    from package_labels_other [OF False Cons.prems] obtain rs1 where
      r: "package_labels lord rord b rt rest rs1 = Some (Inr res)"
      and m: "label_keys rs0 \<subseteq> label_keys rs1" by (elim exE conjE)
    note ih = Cons.IH [OF r]
    from m ih [THEN conjunct1] have "label_keys rs0 \<subseteq> label_keys res" by (rule subset_trans)
    with ih False show ?thesis by simp
  qed
qed

lemma rule_set_add_subset: "set (rule_set_add v s) \<subseteq> insert v (set s)"
  by (auto simp: rule_set_add_def)

lemma subset_step_aux: "A \<subseteq> B \<union> S \<Longrightarrow> B \<subseteq> insert v C \<Longrightarrow> A \<subseteq> C \<union> insert v S"
  by auto

lemma rules_which_depend_on_subset:
  "set (rules_which_depend_on rs l ut um) \<subseteq> snd ` set rs"
proof -
  have "set (fold (\<lambda>(k, v) result_set.
        if um then
          (if \<exists>dep\<in>set (deps v). match dep l \<noteq> None then rule_set_add v result_set
           else result_set)
        else if ut then
          (if label_in l (deps v) then rule_set_add v result_set else result_set)
        else
          (if \<exists>dep\<in>set (deps v). match_without_tag dep l then rule_set_add v result_set
           else result_set)) rs acc) \<subseteq> set acc \<union> snd ` set rs" for acc
  proof (induction rs arbitrary: acc)
    case Nil
    then show ?case by simp
  next
    case (Cons kv rs)
    obtain k v where kv: "kv = (k, v)" by (cases kv)
    let ?acc = "(if um then
          (if \<exists>dep\<in>set (deps v). match dep l \<noteq> None then rule_set_add v acc
           else acc)
        else if ut then
          (if label_in l (deps v) then rule_set_add v acc else acc)
        else
          (if \<exists>dep\<in>set (deps v). match_without_tag dep l then rule_set_add v acc
           else acc))"
    have a: "set ?acc \<subseteq> insert v (set acc)"
      using rule_set_add_subset [of v acc] by (simp add: subset_insertI)
    have e: "fold (\<lambda>(k, v) result_set.
        if um then
          (if \<exists>dep\<in>set (deps v). match dep l \<noteq> None then rule_set_add v result_set
           else result_set)
        else if ut then
          (if label_in l (deps v) then rule_set_add v result_set else result_set)
        else
          (if \<exists>dep\<in>set (deps v). match_without_tag dep l then rule_set_add v result_set
           else result_set)) ((k, v) # rs) acc = fold (\<lambda>(k, v) result_set.
        if um then
          (if \<exists>dep\<in>set (deps v). match dep l \<noteq> None then rule_set_add v result_set
           else result_set)
        else if ut then
          (if label_in l (deps v) then rule_set_add v result_set else result_set)
        else
          (if \<exists>dep\<in>set (deps v). match_without_tag dep l then rule_set_add v result_set
           else result_set)) rs ?acc" by simp
    have s: "snd ` set ((k, v) # rs) = insert v (snd ` set rs)" by simp
    from Cons.IH [of ?acc] a show ?case unfolding kv e s by (rule subset_step_aux)
  qed
  from this [of "[]"] show ?thesis by (simp add: rules_which_depend_on_def)
qed

lemma inner_extra:
  assumes "set rules \<subseteq> V" and "\<forall>x\<in>set acc. \<not> label_in x depends \<and> x \<in> target ` V"
  shows "\<forall>x\<in>set (fold (\<lambda>rule extra. if \<not> label_in (target rule) depends
                              then set_add (target rule) extra else extra) rules acc).
           \<not> label_in x depends \<and> x \<in> target ` V"
  using assms
proof (induction rules arbitrary: acc)
  case Nil
  then show ?case by simp
next
  case (Cons r rules)
  let ?acc = "if \<not> label_in (target r) depends then set_add (target r) acc else acc"
  from Cons.prems have "\<forall>x\<in>set ?acc. \<not> label_in x depends \<and> x \<in> target ` V"
    by (auto simp: set_add_def)
  moreover from Cons.prems have "set rules \<subseteq> V" by simp
  ultimately show ?case unfolding fold_simps by (rule Cons.IH [rotated])
qed

lemma outer_extra:
  assumes "\<forall>x\<in>set acc. \<not> label_in x depends \<and> x \<in> target ` snd ` set rs"
  shows "\<forall>x\<in>set (fold (\<lambda>dep extra.
          fold (\<lambda>rule extra. if \<not> label_in (target rule) depends
                              then set_add (target rule) extra else extra)
            (iterate rord (rules_which_depend_on rs dep ut um)) extra) ds acc).
           \<not> label_in x depends \<and> x \<in> target ` snd ` set rs"
  using assms
proof (induction ds arbitrary: acc)
  case Nil
  then show ?case by simp
next
  case (Cons d ds)
  have "set (iterate rord (rules_which_depend_on rs d ut um)) \<subseteq> snd ` set rs"
    using rules_which_depend_on_subset by simp
  from inner_extra [OF this Cons.prems] show ?case unfolding fold_simps by (rule Cons.IH)
qed

lemma new_dependents_props:
  "\<forall>x\<in>set (new_dependents lord rord rs ut um depends).
      \<not> label_in x depends \<and> x \<in> target ` snd ` set rs"
  unfolding new_dependents_def by (rule outer_extra) simp

lemma required_loop_unfold:
  "required_loop lord rord rs ut um depends =
     (if new_dependents lord rord rs ut um depends = [] then Some depends
      else required_loop lord rord rs ut um
             (fold set_add (iterate lord (new_dependents lord rord rs ut um depends)) depends))"
  by (subst required_loop.simps) (simp add: Let_def)

lemma card_decrease_aux:
  assumes "finite TK" and "x \<in> TK" and "x \<notin> D" and "x \<in> D'" and "D \<subseteq> D'"
  shows "card (TK - D') < card (TK - D)"
proof -
  from assms have "TK - D' \<subset> TK - D" by auto
  with assms(1) show ?thesis by (simp add: psubset_card_mono)
qed

lemma required_loop_total:
  "\<exists>r. required_loop lord rord rs ut um depends = Some r"
proof (induction depends rule: measure_induct_rule
    [where f = "\<lambda>d. card (as_tuple ` target ` snd ` set rs - label_keys d)"])
  case (less depends)
  let ?extra = "new_dependents lord rord rs ut um depends"
  show ?case
  proof (cases "?extra = []")
    case True
    then show ?thesis by (subst required_loop_unfold) simp
  next
    case False
    then obtain x where x: "x \<in> set ?extra" by (cases ?extra) auto
    with new_dependents_props [of lord rord rs ut um depends]
    have nx: "\<not> label_in x depends" and tx: "x \<in> target ` snd ` set rs" by auto
    let ?d = "fold set_add (iterate lord ?extra) depends"
    have fin: "finite (as_tuple ` target ` snd ` set rs)" by simp
    from tx have 1: "as_tuple x \<in> as_tuple ` target ` snd ` set rs" by (rule imageI)
    from nx have 2: "as_tuple x \<notin> label_keys depends" by (simp add: label_in_iff)
    from x have "as_tuple x \<in> label_keys ?extra" unfolding label_keys_def set_map by (rule imageI)
    then have 3: "as_tuple x \<in> label_keys ?d" by (simp add: fold_set_add_keys)
    have 4: "label_keys depends \<subseteq> label_keys ?d" by (rule fold_set_add_mono)
    from card_decrease_aux [OF fin 1 2 3 4] have
      "card (as_tuple ` target ` snd ` set rs - label_keys ?d)
         < card (as_tuple ` target ` snd ` set rs - label_keys depends)" .
    from less [OF this] obtain r where "required_loop lord rord rs ut um ?d = Some r" by (elim exE)
    with False show ?thesis by (subst required_loop_unfold) simp
  qed
qed

lemma required_by_total: "\<exists>r. required_by lord rord rs l ut um = Some r"
proof (cases "length (rules_for_target rs l True um) = 0")
  case True
  then show ?thesis by (simp add: required_by_def)
next
  case False
  from required_loop_total [of lord rord rs ut um
      "fold (\<lambda>r depends. set_add (target r) depends)
          (iterate rord (rules_for_target rs l True um)) []"] obtain r where
    "required_loop lord rord rs ut um
       (fold (\<lambda>r depends. set_add (target r) depends)
          (iterate rord (rules_for_target rs l True um)) []) = Some r" by (elim exE)
  with False show ?thesis by (simp add: required_by_def Let_def)
qed

lemma packages_from_checkout_label_total:
  "\<exists>r. packages_from_checkout_label lord rord b rt l = Some r"
proof -
  from required_by_total [of lord rord "inv_ruleset b" l True True] obtain r where
    r: "required_by lord rord (inv_ruleset b) l True True = Some r" by (elim exE)
  show ?thesis unfolding packages_from_checkout_label_def r by (cases r) simp_all
qed

lemma needed_to_build_total:
  "\<exists>r. needed_to_build lord rord rs q useTags useMatch = Some r"
  using needed_to_build_post [of lord rord rs q useTags useMatch] by (elim exE conjE) (rule exI)

lemma checkout_labels_total:
  "\<exists>r. checkout_labels lord rord b rt il rs0 = Some r"
proof (induction il arbitrary: rs0)
  case Nil
  then show ?case by simp
next
  case (Cons l rest)
  from needed_to_build_total [of lord rord "inv_ruleset b" l True False] obtain r where
    r: "needed_to_build lord rord (inv_ruleset b) l True False = Some r" by (elim exE)
  show ?case
  proof (cases r)
    case (Inl e)
    with r Cons.IH show ?thesis by simp
  next
    case (Inr rules)
    with r Cons.IH show ?thesis by simp
  qed
qed

lemma package_labels_total:
  "\<exists>r. package_labels lord rord b rt il rs0 = Some r"
proof (induction il arbitrary: rs0)
  case Nil
  then show ?case by simp
next
  case (Cons l rest)
  from needed_to_build_total [of lord rord "inv_ruleset b" l True False] obtain r where
    r: "needed_to_build lord rord (inv_ruleset b) l True False = Some r" by (elim exE)
  from packages_from_checkout_label_total [of lord rord b rt l] obtain p where
    p: "packages_from_checkout_label lord rord b rt l = Some p" by (elim exE)
  show ?case
  proof (cases r)
    case rl: (Inl e)
    show ?thesis
    proof (cases p)
      case (Inl e')
      with rl r p Cons.IH show ?thesis by simp
    next
      case (Inr packages)
      with rl r p Cons.IH show ?thesis by simp
    qed
  next
    case rr: (Inr rules)
    show ?thesis
    proof (cases p)
      case (Inl e')
      with rr r p Cons.IH show ?thesis by simp
    next
      case (Inr packages)
      with rr r p Cons.IH show ?thesis by simp
    qed
  qed
qed

lemma checkout_decode_args_total:
  "\<exists>res. checkout_decode_args lord rord b required_tag args = Some res"
proof (cases "initial_list_of lord b LabelType_Checkout (all_checkout_labels b) args []")
  case (Inl e)
  then show ?thesis by (simp add: checkout_decode_args_def)
next
  case (Inr il)
  from checkout_labels_total [of lord rord b required_tag il "[]"] obtain r where
    r: "checkout_labels lord rord b required_tag il [] = Some r" by (elim exE)
  show ?thesis unfolding checkout_decode_args_def Inr sum.case r by (cases r) simp_all
qed

lemma package_decode_args_total:
  "\<exists>res. package_decode_args lord rord b required_tag args = Some res"
proof (cases "initial_list_of lord b LabelType_Package (all_package_labels b) args []")
  case (Inl e)
  then show ?thesis by (simp add: package_decode_args_def)
next
  case (Inr il)
  from package_labels_total [of lord rord b required_tag il "[]"] obtain r where
    r: "package_labels lord rord b required_tag il [] = Some r" by (elim exE)
  show ?thesis unfolding package_decode_args_def Inr sum.case r by (cases r) simp_all
qed

lemma key_in_set:
  assumes "as_tuple (force_tag (Some rt) l) \<in> label_keys res" and "rt \<noteq> []"
  shows "\<exists>l'\<in>set res. type l' = type l \<and> domain l' = domain l \<and> name l' = name l \<and>
           role l' = role l \<and> tag l' = rt"
proof -
  from assms(1) obtain l' where m: "l' \<in> set res"
    and e: "as_tuple l' = as_tuple (force_tag (Some rt) l)"
    unfolding label_keys_def set_map by (elim imageE) simp
  from e assms(2) have "type l' = type l \<and> domain l' = domain l \<and> name l' = name l \<and>
           role l' = role l \<and> tag l' = rt"
    by (simp add: as_tuple_force_tag) (simp add: as_tuple_def)
  with m show ?thesis by (rule rev_bexI)
qed

lemma checkout_decode_args_forced:
  assumes rt: "rt \<noteq> []" and w: "word \<in> set args" and na: "word \<noteq> ''_all''"
    and run: "checkout_decode_args lord rord b (Some rt) args = Some (Inr result)"
    and l: "l \<in> set (label_from_fragment b word LabelType_Checkout)"
    and ex: "target_label_exists b l" and ty: "type l = LabelType_Checkout"
  shows "\<exists>l'\<in>set result. type l' = type l \<and> domain l' = domain l \<and> name l' = name l \<and>
           role l' = role l \<and> tag l' = rt"
proof (cases "initial_list_of lord b LabelType_Checkout (all_checkout_labels b) args []")
  case (Inl e)
  with run show ?thesis by (simp add: checkout_decode_args_def)
next
  case (Inr il)
  from initial_list_of_kept [OF Inr, THEN conjunct2, rule_format, OF w na l ex]
  have m: "l \<in> set il" .
  from checkout_labels_total [of lord rord b "Some rt" il "[]"] obtain r where
    r: "checkout_labels lord rord b (Some rt) il [] = Some r" by (elim exE)
  from run obtain res where r': "r = Inr res" and it: "result = iterate lord res"
    unfolding checkout_decode_args_def Inr sum.case r by (cases r) simp_all
  from r r' have "checkout_labels lord rord b (Some rt) il [] = Some (Inr res)" by simp
  from checkout_labels_forced [OF this, THEN conjunct2, rule_format, OF m ty]
  have "as_tuple (force_tag (Some rt) l) \<in> label_keys res" .
  from key_in_set [OF this rt] show ?thesis unfolding it set_iterate .
qed

lemma package_decode_args_forced:
  assumes rt: "rt \<noteq> []" and w: "word \<in> set args" and na: "word \<noteq> ''_all''"
    and run: "package_decode_args lord rord b (Some rt) args = Some (Inr result)"
    and l: "l \<in> set (label_from_fragment b word LabelType_Package)"
    and ex: "target_label_exists b l" and ty: "type l = LabelType_Package"
  shows "\<exists>l'\<in>set result. type l' = type l \<and> domain l' = domain l \<and> name l' = name l \<and>
           role l' = role l \<and> tag l' = rt"
proof (cases "initial_list_of lord b LabelType_Package (all_package_labels b) args []")
  case (Inl e)
  with run show ?thesis by (simp add: package_decode_args_def)
next
  case (Inr il)
  from initial_list_of_kept [OF Inr, THEN conjunct2, rule_format, OF w na l ex]
  have m: "l \<in> set il" .
  from package_labels_total [of lord rord b "Some rt" il "[]"] obtain r where
    r: "package_labels lord rord b (Some rt) il [] = Some r" by (elim exE)
  from run obtain res where r': "r = Inr res" and it: "result = iterate lord res"
    unfolding package_decode_args_def Inr sum.case r by (cases r) simp_all
  from r r' have "package_labels lord rord b (Some rt) il [] = Some (Inr res)" by simp
  from package_labels_forced [OF this, THEN conjunct2, rule_format, OF m ty]
  have "as_tuple (force_tag (Some rt) l) \<in> label_keys res" .
  from key_in_set [OF this rt] show ?thesis unfolding it set_iterate .
qed



section \<open>Properties of the distribution requests\<close>

lemma dict_set_keys: "fst ` set (dict_set k v d) = insert k (fst ` set d)"
  by (induction k v d rule: dict_set.induct) (simp_all add: insert_commute)

lemma dict_set_map_of: "map_of (dict_set k v d) = (map_of d)(k \<mapsto> v)"
  by (induction d) auto

lemma add_distribution_names:
  "{n. does_distribution (add_distribution a dname data) n} =
     insert dname {n. does_distribution a n}"
  by (auto simp: does_distribution_def add_distribution_def dict_set_keys)

lemma add_distribution_get:
  "get_distribution (add_distribution a dname data) n =
     (if n = dname then Inr data else get_distribution a n)"
  by (simp add: get_distribution_def add_distribution_def dict_set_map_of)

lemma distribute_checkout_exists:
  assumes "type co = LabelType_Checkout"
    and "target_exists rs (copy_with_tag co LabelTag_Distributed)"
  shows "distribute_checkout target_exists rs dname co with_vcs =
     (if map_get rs (copy_with_tag co LabelTag_Distributed) = None then Inl KeyError
      else Inl AttributeError)"
  using assms by (simp add: distribute_checkout_def Let_def split: option.splits)

lemma distribute_package_exists:
  assumes "type p = LabelType_Package"
    and "target_exists rs (copy_with_tag p LabelTag_Distributed)"
  shows "distribute_package target_exists rs dname p binary source with_vcs =
     (if map_get rs (copy_with_tag p LabelTag_Distributed) = None then Inl KeyError
      else Inl AttributeError)"
  using assms by (simp add: distribute_package_def Let_def split: option.splits)


lemma distribute_checkout_first:
  assumes "type co = LabelType_Checkout"
    and "\<not> target_exists rs (copy_with_tag co LabelTag_Distributed)"
    and "map_get rs (copy_with_tag co LabelTag_Distributed) = None"
  shows "distribute_checkout target_exists rs dname co with_vcs =
     Inr (rs @ [(copy_with_tag co LabelTag_Distributed,
                 \<lparr>target = copy_with_tag co LabelTag_Distributed,
                  obj = Some (DistributeCheckout dname with_vcs),
                  deps = [copy_with_tag co LabelTag_CheckedOut]\<rparr>)])"
  using assms
  by (simp add: distribute_checkout_def Let_def ruleset_add_def rule_add_def set_add_def
      label_in_def)

lemma distribute_package_first:
  assumes "type p = LabelType_Package"
    and "\<not> target_exists rs (copy_with_tag p LabelTag_Distributed)"
    and "map_get rs (copy_with_tag p LabelTag_Distributed) = None"
  shows "distribute_package target_exists rs dname p binary source with_vcs =
     Inr (rs @ [(copy_with_tag p LabelTag_Distributed,
                 \<lparr>target = copy_with_tag p LabelTag_Distributed,
                  obj = Some (DistributePackage dname True False False),
                  deps = [copy_with_tag p LabelTag_PostInstalled]\<rparr>)])"
  using assms
  by (simp add: distribute_package_def Let_def ruleset_add_def rule_add_def set_add_def
      label_in_def)



end
